theory Spec2Isabelle
  imports Main "HOL-Library.Word" "HOL-Library.Monad_Syntax"
begin

section \<open>The carpenter's workshop: cabinets, workbench and outside\<close>

text \<open>
  A shallow embedding of \<^verbatim>\<open>src/carpenter.cpp\<close>. A \<^verbatim>\<open>std::deque<Item>\<close> is a list
  whose head is the front of the deque; an iterator into it is the index of the element
  it points to, and \<^verbatim>\<open>end()\<close> is the length. Member functions take the object as
  their last argument and return the updated object next to their C++ result. A failed
  \<^verbatim>\<open>assert\<close> and undefined behaviour (\<^verbatim>\<open>back()\<close> of an empty deque, signed overflow of
  an \<^verbatim>\<open>int\<close>) are the value \<open>None\<close>.
\<close>

subsection \<open>Items and results (lines 17--36)\<close>

type_synonym Item = "64 word"

definition kSentinelItem :: Item where
  "kSentinelItem = 0x7FFFFFFFFFFFFFFF"

record Result =
  cabinet_nr :: "64 word"
  status :: string

text \<open>The two constructors of \<^verbatim>\<open>Result\<close> that \<^verbatim>\<open>workOn\<close> calls.\<close>

definition Result_nr :: "64 word \<Rightarrow> Result" where
  "Result_nr nr = \<lparr>cabinet_nr = nr, status = []\<rparr>"

definition Result_str :: "string \<Rightarrow> Result" where
  "Result_str str = \<lparr>cabinet_nr = kSentinelItem, status = str\<rparr>"

subsection \<open>Cabinet (lines 46--100)\<close>

text \<open>\<^verbatim>\<open>mSize\<close> is a \<^verbatim>\<open>uint16_t\<close>; the constructor narrows its \<^verbatim>\<open>int64_t\<close> argument.\<close>

record Cabinet =
  mSize :: "16 word"
  mStorage :: "Item list"

definition Cabinet :: "64 word \<Rightarrow> Cabinet" where
  "Cabinet sz = \<lparr>mSize = ucast sz, mStorage = []\<rparr>"

definition end_cab :: "Cabinet \<Rightarrow> nat" where
  "end_cab c = length (mStorage c)"

text \<open>\<^verbatim>\<open>std::find\<close>: the position of the first equal element, the length if there is none.\<close>

fun std_find :: "Item list \<Rightarrow> Item \<Rightarrow> nat" where
  "std_find [] item = 0"
| "std_find (y # ys) item = (if y = item then 0 else Suc (std_find ys item))"

definition find_cab :: "Item \<Rightarrow> Cabinet \<Rightarrow> nat" where
  "find_cab item c = std_find (mStorage c) item"

definition hasSpace :: "Cabinet \<Rightarrow> bool" where
  "hasSpace c \<longleftrightarrow> length (mStorage c) < unat (mSize c)"

definition empty_cab :: "Cabinet \<Rightarrow> bool" where
  "empty_cab c \<longleftrightarrow> mStorage c = []"

text \<open>
  \<^verbatim>\<open>addItem\<close> returns the sentinel when the item fitted, the popped oldest item
  otherwise. A cabinet without space that holds nothing (\<^verbatim>\<open>mSize\<close> 0) calls \<^verbatim>\<open>back()\<close>
  on an empty deque.
\<close>

definition addItem :: "Item \<Rightarrow> Cabinet \<Rightarrow> (Item \<times> Cabinet) option" where
  "addItem item c =
     (if hasSpace c then Some (kSentinelItem, c\<lparr>mStorage := item # mStorage c\<rparr>)
      else if mStorage c = [] then None
      else Some (last (mStorage c), c\<lparr>mStorage := item # butlast (mStorage c)\<rparr>))"

text \<open>
  \<^verbatim>\<open>pop\<close> asserts that its iterator is not \<^verbatim>\<open>end()\<close>, and \<^verbatim>\<open>pop_back\<close> that the
  cabinet is not empty. Iterators come from \<^verbatim>\<open>find\<close>, so they are never past the end.
\<close>

definition pop :: "nat \<Rightarrow> Cabinet \<Rightarrow> (Item \<times> Cabinet) option" where
  "pop item_it c =
     (if item_it < end_cab c
      then Some (mStorage c ! item_it,
                 c\<lparr>mStorage := take item_it (mStorage c) @ drop (Suc item_it) (mStorage c)\<rparr>)
      else None)"

definition pop_back :: "Cabinet \<Rightarrow> (Item \<times> Cabinet) option" where
  "pop_back c =
     (if mStorage c \<noteq> [] then Some (last (mStorage c), c\<lparr>mStorage := butlast (mStorage c)\<rparr>)
      else None)"

subsection \<open>WorkShop (lines 107--168)\<close>

record WorkShop =
  mOutside :: Cabinet
  mWorkbench :: Cabinet
  mCabinets :: "Cabinet list"

definition WorkShop :: "64 word list \<Rightarrow> WorkShop" where
  "WorkShop cabinetSizes =
     \<lparr>mOutside = Cabinet kSentinelItem, mWorkbench = Cabinet 1,
      mCabinets = map Cabinet cabinetSizes\<rparr>"

text \<open>
  The loop of \<^verbatim>\<open>putInCabinet\<close> over the cabinets, from the values of \<^verbatim>\<open>item\<close> and
  \<^verbatim>\<open>extraItem\<close> before it to their values after it. The \<^verbatim>\<open>break\<close> leaves the remaining
  cabinets as they are.
\<close>

fun putInCabinet_loop ::
  "Item \<Rightarrow> Item \<Rightarrow> Cabinet list \<Rightarrow> (Item \<times> Item \<times> Cabinet list) option" where
  "putInCabinet_loop item extraItem [] = Some (item, extraItem, [])"
| "putInCabinet_loop item extraItem (cabinet # rest) =
     do {
       (extraItem', cabinet') \<leftarrow> addItem item cabinet;
       if extraItem' \<noteq> kSentinelItem then
         do {
           (item'', extraItem'', rest') \<leftarrow> putInCabinet_loop extraItem' extraItem' rest;
           Some (item'', extraItem'', cabinet' # rest')
         }
       else Some (item, extraItem', cabinet' # rest)
     }"

definition putInCabinet :: "Item \<Rightarrow> WorkShop \<Rightarrow> WorkShop option" where
  "putInCabinet item ws =
     do {
       (item', extraItem, cabinets) \<leftarrow> putInCabinet_loop item kSentinelItem (mCabinets ws);
       if item' \<noteq> kSentinelItem then
         do {
           (_, outside) \<leftarrow> addItem extraItem (mOutside ws);
           Some (ws\<lparr>mOutside := outside, mCabinets := cabinets\<rparr>)
         }
       else Some (ws\<lparr>mCabinets := cabinets\<rparr>)
     }"

text \<open>Lines 123--126 of \<^verbatim>\<open>workOn\<close>: what is on the workbench goes into the cabinets.\<close>

definition workOn_clear :: "WorkShop \<Rightarrow> WorkShop option" where
  "workOn_clear ws =
     (if \<not> empty_cab (mWorkbench ws) then
        do {
          (current_workbench_item, workbench) \<leftarrow> pop_back (mWorkbench ws);
          putInCabinet current_workbench_item (ws\<lparr>mWorkbench := workbench\<rparr>)
        }
      else Some ws)"

text \<open>
  Lines 133--142: the loop over the cabinets from index \<open>j\<close> on, and the fall through to
  \<^verbatim>\<open>NEW\<close>. \<open>j\<close> is an \<^verbatim>\<open>int\<close>: at \<^verbatim>\<open>INT_MAX\<close> both \<^verbatim>\<open>j + 1\<close> and \<^verbatim>\<open>j++\<close> overflow.
\<close>

function workOn_cabinets :: "Item \<Rightarrow> WorkShop \<Rightarrow> nat \<Rightarrow> (Result \<times> WorkShop) option" where
  "workOn_cabinets current_item ws j =
     (if j < length (mCabinets ws) then
        (if j \<ge> 2147483647 then None
         else
           let cabinet_item_it = find_cab current_item (mCabinets ws ! j) in
           if cabinet_item_it \<noteq> end_cab (mCabinets ws ! j) then
             do {
               (_, cabinet) \<leftarrow> pop cabinet_item_it (mCabinets ws ! j);
               (_, workbench) \<leftarrow> addItem current_item (mWorkbench ws);
               Some (Result_nr (word_of_nat (j + 1)),
                     ws\<lparr>mWorkbench := workbench, mCabinets := (mCabinets ws)[j := cabinet]\<rparr>)
             }
           else workOn_cabinets current_item ws (j + 1))
      else
        do {
          (_, workbench) \<leftarrow> addItem current_item (mWorkbench ws);
          Some (Result_str ''NEW'', ws\<lparr>mWorkbench := workbench\<rparr>)
        })"
  by pat_completeness auto
termination
  by (relation "measure (\<lambda>(current_item, ws, j). length (mCabinets ws) - j)") auto

text \<open>Lines 127--142: look for the item outside, then in the cabinets.\<close>

definition workOn_find :: "Item \<Rightarrow> WorkShop \<Rightarrow> (Result \<times> WorkShop) option" where
  "workOn_find current_item ws =
     (let outside_item_it = find_cab current_item (mOutside ws) in
      if outside_item_it \<noteq> end_cab (mOutside ws) then
        do {
          (_, outside) \<leftarrow> pop outside_item_it (mOutside ws);
          (_, workbench) \<leftarrow> addItem current_item (mWorkbench ws);
          Some (Result_str ''OUTSIDE'', ws\<lparr>mOutside := outside, mWorkbench := workbench\<rparr>)
        }
      else workOn_cabinets current_item ws 0)"

definition workOn :: "Item \<Rightarrow> WorkShop \<Rightarrow> (Result \<times> WorkShop) option" where
  "workOn current_item ws =
     do {
       ws' \<leftarrow> workOn_clear ws;
       workOn_find current_item ws'
     }"

text \<open>
  The loop of \<^verbatim>\<open>main\<close> (lines 230--232) calls \<^verbatim>\<open>workOn\<close> on each item read; here every
  result is kept, the last at the end of the list.
\<close>

fun workOn_all :: "Item list \<Rightarrow> WorkShop \<Rightarrow> (Result list \<times> WorkShop) option" where
  "workOn_all [] ws = Some ([], ws)"
| "workOn_all (item # items) ws =
     do {
       (res, ws') \<leftarrow> workOn item ws;
       (ress, ws'') \<leftarrow> workOn_all items ws';
       Some (res # ress, ws'')
     }"

subsection \<open>The configuration check of \<^verbatim>\<open>main\<close> (lines 207--219)\<close>

definition is_invalid_cabinet_size :: "64 word \<Rightarrow> bool" where
  "is_invalid_cabinet_size sz \<longleftrightarrow> sint sz \<le> 0 \<or> sint sz \<ge> 1024"

text \<open>The cabinet sizes with which \<^verbatim>\<open>main\<close> reaches the constructor of the workshop.\<close>

definition accepted_cabinetSizes :: "64 word list \<Rightarrow> bool" where
  "accepted_cabinetSizes cabinetSizes \<longleftrightarrow>
     list_all (\<lambda>sz. \<not> is_invalid_cabinet_size sz) cabinetSizes \<and> \<not> length cabinetSizes > 64"

subsection \<open>Notions used to state the properties\<close>

text \<open>Every entry of every store of the workshop: workbench, cabinets in order, outside.\<close>

definition stored :: "WorkShop \<Rightarrow> Item list" where
  "stored ws =
     mStorage (mWorkbench ws) @ concat (map mStorage (mCabinets ws)) @ mStorage (mOutside ws)"

text \<open>
  The shape every workshop built by the constructor keeps: a workbench of size 1 holding
  at most one item, no cabinet of size 0, and few enough cabinets for the \<^verbatim>\<open>int\<close> index
  of \<^verbatim>\<open>workOn\<close>.
\<close>

definition shaped :: "WorkShop \<Rightarrow> bool" where
  "shaped ws \<longleftrightarrow>
     mSize (mWorkbench ws) = 1 \<and> length (mStorage (mWorkbench ws)) \<le> 1 \<and>
     mSize (mOutside ws) \<noteq> 0 \<and> list_all (\<lambda>c. mSize c \<noteq> 0) (mCabinets ws) \<and>
     length (mCabinets ws) \<le> 2147483647"

text \<open>Calls of \<^verbatim>\<open>addItem\<close> on one cabinet, one after the other, with what each returned.\<close>

fun addItem_all :: "Item list \<Rightarrow> Cabinet \<Rightarrow> (Item list \<times> Cabinet) option" where
  "addItem_all [] c = Some ([], c)"
| "addItem_all (item # items) c =
     do {
       (extraItem, c') \<leftarrow> addItem item c;
       (extraItems, c'') \<leftarrow> addItem_all items c';
       Some (extraItem # extraItems, c'')
     }"

text \<open>
  The operations of a cabinet that change it, and the cabinets a sequence of them goes
  through: the sequence stops where an operation fails.
\<close>

datatype CabinetOp = AddItem Item | Pop nat | PopBack

fun applyOp :: "CabinetOp \<Rightarrow> Cabinet \<Rightarrow> Cabinet option" where
  "applyOp (AddItem item) c = map_option snd (addItem item c)"
| "applyOp (Pop item_it) c = map_option snd (pop item_it c)"
| "applyOp PopBack c = map_option snd (pop_back c)"

fun visited :: "CabinetOp list \<Rightarrow> Cabinet \<Rightarrow> Cabinet list" where
  "visited [] c = [c]"
| "visited (op # ops) c =
     c # (case applyOp op c of None \<Rightarrow> [] | Some c' \<Rightarrow> visited ops c')"

text \<open>
  The workshops with one cabinet of size 1 in which the workbench and the cabinet hold one
  item each: \<open>b\<close> on the workbench, \<open>a\<close> in the cabinet.
\<close>

definition one_cabinet :: "Item list \<Rightarrow> Item \<Rightarrow> Item \<Rightarrow> WorkShop" where
  "one_cabinet outside a b =
     \<lparr>mOutside = \<lparr>mSize = 65535, mStorage = outside\<rparr>,
      mWorkbench = \<lparr>mSize = 1, mStorage = [b]\<rparr>,
      mCabinets = [\<lparr>mSize = 1, mStorage = [a]\<rparr>]\<rparr>"

section \<open>Properties\<close>

declare workOn_cabinets.simps [simp del]

lemmas cabinet_defs =
  addItem_def pop_def pop_back_def hasSpace_def empty_cab_def end_cab_def find_cab_def
  Cabinet_def kSentinelItem_def

lemmas workshop_defs =
  workOn_def workOn_clear_def workOn_find_def workOn_cabinets.simps putInCabinet_def
  WorkShop_def Result_nr_def Result_str_def

subsection \<open>Searching a cabinet\<close>

lemma std_find_le: "std_find xs x \<le> length xs"
  by (induction xs) auto

lemma std_find_end_iff: "std_find xs x = length xs \<longleftrightarrow> x \<notin> set xs"
proof (induction xs)
  case Nil
  show ?case by simp
next
  case (Cons y ys)
  then show ?case by auto
qed

lemma std_find_less: "x \<in> set xs \<Longrightarrow> std_find xs x < length xs"
  using std_find_le [of xs x] std_find_end_iff [of xs x] by linarith

lemma std_find_nth: "x \<in> set xs \<Longrightarrow> xs ! std_find xs x = x"
  by (induction xs) auto

lemma std_find_erase:
  "x \<in> set xs \<Longrightarrow> take (std_find xs x) xs @ drop (Suc (std_find xs x)) xs = remove1 x xs"
  by (induction xs) auto

lemma pop_find_cab:
  "item \<in> set (mStorage c) \<Longrightarrow>
   pop (find_cab item c) c = Some (item, c\<lparr>mStorage := remove1 item (mStorage c)\<rparr>)"
  by (simp add: pop_def find_cab_def end_cab_def std_find_less std_find_nth std_find_erase)

lemma find_cab_end_iff: "find_cab item c \<noteq> end_cab c \<longleftrightarrow> item \<in> set (mStorage c)"
  by (simp add: find_cab_def end_cab_def std_find_end_iff)

lemma addItem_empty_one:
  "mStorage c = [] \<Longrightarrow> mSize c = 1 \<Longrightarrow> addItem item c = Some (kSentinelItem, c\<lparr>mStorage := [item]\<rparr>)"
  by (simp add: addItem_def hasSpace_def)

lemma workOn_cabinets_NEW:
  assumes "length (mCabinets ws) \<le> 2147483647"
    and "mStorage (mWorkbench ws) = []" and "mSize (mWorkbench ws) = 1"
    and "\<forall>i. j \<le> i \<and> i < length (mCabinets ws) \<longrightarrow> item \<notin> set (mStorage (mCabinets ws ! i))"
  shows "workOn_cabinets item ws j =
         Some (Result_str ''NEW'', ws\<lparr>mWorkbench := (mWorkbench ws)\<lparr>mStorage := [item]\<rparr>\<rparr>)"
  using assms
proof (induction item ws j rule: workOn_cabinets.induct)
  case (1 item ws j)
  show ?case
  proof (cases "j < length (mCabinets ws)")
    case True
    then have nj: "\<not> 2147483647 \<le> j" using "1.prems"(1) by linarith
    have notin: "item \<notin> set (mStorage (mCabinets ws ! j))" using True "1.prems"(4) by simp
    have "workOn_cabinets item ws j = workOn_cabinets item ws (j + 1)"
      using True nj notin find_cab_end_iff [of item "mCabinets ws ! j"]
      by (subst workOn_cabinets.simps) (simp add: Let_def)
    also have "\<dots> = Some (Result_str ''NEW'', ws\<lparr>mWorkbench := (mWorkbench ws)\<lparr>mStorage := [item]\<rparr>\<rparr>)"
      using "1.IH" [OF True nj refl] notin find_cab_end_iff [of item "mCabinets ws ! j"] "1.prems"
      by simp
    finally show ?thesis .
  next
    case False
    then show ?thesis
      using "1.prems"(2,3)
      by (subst workOn_cabinets.simps) (simp add: addItem_empty_one)
  qed
qed

lemma workOn_cabinets_found:
  assumes "length (mCabinets ws) \<le> 2147483647"
    and "mStorage (mWorkbench ws) = []" and "mSize (mWorkbench ws) = 1"
    and "j \<le> k" and "k < length (mCabinets ws)"
    and "item \<in> set (mStorage (mCabinets ws ! k))"
    and "\<forall>i. j \<le> i \<and> i < k \<longrightarrow> item \<notin> set (mStorage (mCabinets ws ! i))"
  shows "workOn_cabinets item ws j =
         Some (Result_nr (word_of_nat (k + 1)),
               ws\<lparr>mWorkbench := (mWorkbench ws)\<lparr>mStorage := [item]\<rparr>,
                  mCabinets := (mCabinets ws)
                     [k := (mCabinets ws ! k)\<lparr>mStorage := remove1 item (mStorage (mCabinets ws ! k))\<rparr>]\<rparr>)"
  using assms
proof (induction item ws j rule: workOn_cabinets.induct)
  case (1 item ws j)
  have jlt: "j < length (mCabinets ws)" using "1.prems"(4,5) by linarith
  then have nj: "\<not> 2147483647 \<le> j" using "1.prems"(1) by linarith
  show ?case
  proof (cases "j = k")
    case True
    then show ?thesis
      using jlt nj "1.prems"(2,3,6) find_cab_end_iff [of item "mCabinets ws ! k"]
      by (subst workOn_cabinets.simps) (simp add: Let_def pop_find_cab addItem_empty_one)
  next
    case False
    then have lt: "j < k" using "1.prems"(4) by linarith
    then have notin: "item \<notin> set (mStorage (mCabinets ws ! j))" using "1.prems"(7) by simp
    have "workOn_cabinets item ws j = workOn_cabinets item ws (j + 1)"
      using jlt nj notin find_cab_end_iff [of item "mCabinets ws ! j"]
      by (subst workOn_cabinets.simps) (simp add: Let_def)
    also have "\<dots> = Some (Result_nr (word_of_nat (k + 1)),
               ws\<lparr>mWorkbench := (mWorkbench ws)\<lparr>mStorage := [item]\<rparr>,
                  mCabinets := (mCabinets ws)
                     [k := (mCabinets ws ! k)\<lparr>mStorage := remove1 item (mStorage (mCabinets ws ! k))\<rparr>]\<rparr>)"
      using "1.IH" [OF jlt nj refl] notin find_cab_end_iff [of item "mCabinets ws ! j"] "1.prems" lt
      by simp
    finally show ?thesis .
  qed
qed

subsection \<open>One cabinet\<close>

lemma sint_nonneg_uint:
  assumes "0 \<le> sint (sz :: 64 word)"
  shows "uint sz = sint sz"
proof -
  have "sint sz < 2 ^ (LENGTH(64) - Suc 0)" by (rule sint_less)
  also have "\<dots> < (2 :: int) ^ 64" by simp
  finally have "sint sz < 2 ^ 64" .
  then have "take_bit 64 (sint sz) = sint sz"
    using assms by (simp add: take_bit_int_eq_self)
  then show ?thesis
    using uint_sint [of sz] by simp
qed

lemma ucast_le_uint: "uint (ucast (sz :: 64 word) :: 16 word) \<le> uint sz"
  by (simp add: unsigned_ucast_eq take_bit_int_less_eq_self_iff)

lemma Cabinet_size_le:
  assumes "0 \<le> sint sz"
  shows "int (unat (mSize (Cabinet sz))) \<le> sint sz"
proof -
  have "uint (ucast sz :: 16 word) \<le> uint sz" by (rule ucast_le_uint)
  also have "\<dots> = sint sz" using assms by (rule sint_nonneg_uint)
  finally show ?thesis by (simp add: Cabinet_def)
qed

lemma Cabinet_size_nonzero:
  assumes "1 \<le> sint sz" and "sint sz < 65536"
  shows "mSize (Cabinet sz) \<noteq> 0"
proof
  assume zero: "mSize (Cabinet sz) = 0"
  have eq: "uint sz = sint sz" using assms(1) by (simp add: sint_nonneg_uint)
  have "uint (ucast sz :: 16 word) = take_bit 16 (uint sz)"
    by (simp add: unsigned_ucast_eq)
  also have "\<dots> = uint sz"
    using assms eq by (simp add: take_bit_int_eq_self)
  finally have "uint (mSize (Cabinet sz)) = sint sz"
    using eq by (simp add: Cabinet_def)
  with zero assms(1) show False by simp
qed

lemma addItem_succeeds:
  assumes "mSize c \<noteq> 0"
  shows "\<exists>extraItem c'. addItem item c = Some (extraItem, c')"
proof (cases "hasSpace c")
  case True
  then show ?thesis by (simp add: addItem_def)
next
  case False
  have "unat (mSize c) \<noteq> 0" using assms by (simp add: unat_eq_0)
  with False have "mStorage c \<noteq> []" by (auto simp: hasSpace_def)
  with False show ?thesis by (simp add: addItem_def)
qed

lemma applyOp_within:
  assumes "applyOp op c = Some c'" and "length (mStorage c) \<le> unat (mSize c)"
  shows "length (mStorage c') \<le> unat (mSize c') \<and> mSize c' = mSize c"
proof (cases op)
  case (AddItem item)
  then show ?thesis
    using assms by (cases "mStorage c") (auto simp: addItem_def hasSpace_def split: if_splits)
next
  case (Pop item_it)
  then show ?thesis
    using assms by (auto simp: pop_def end_cab_def split: if_splits)
next
  case PopBack
  then show ?thesis
    using assms by (auto simp: pop_back_def split: if_splits)
qed

lemma visited_within:
  "length (mStorage c0) \<le> unat (mSize c0) \<Longrightarrow> c \<in> set (visited ops c0) \<Longrightarrow>
   length (mStorage c) \<le> unat (mSize c) \<and> mSize c = mSize c0"
proof (induction ops arbitrary: c0)
  case Nil
  then show ?case by simp
next
  case (Cons op ops)
  show ?case
  proof (cases "c = c0")
    case True
    then show ?thesis using Cons.prems(1) by simp
  next
    case False
    then obtain c' where step: "applyOp op c0 = Some c'" and mem: "c \<in> set (visited ops c')"
      using Cons.prems(2) by (cases "applyOp op c0") auto
    from applyOp_within [OF step Cons.prems(1)]
    have a: "length (mStorage c') \<le> unat (mSize c')" and b: "mSize c' = mSize c0"
      by blast+
    from Cons.IH [OF a mem] b show ?thesis by auto
  qed
qed

text \<open>
  C9. A cabinet constructed with a size of at least 1 never holds more items than that
  size, whatever sequence of \<^verbatim>\<open>addItem\<close>, \<^verbatim>\<open>pop\<close> and \<^verbatim>\<open>pop_back\<close> is applied to it:
  in every cabinet the sequence goes through, the length is at most the stored size, which
  is at most the size given to the constructor. For a size below 65536 a further
  \<^verbatim>\<open>addItem\<close> is always defined.
\<close>

theorem cabinet_never_exceeds_size:
  assumes "1 \<le> sint sz" and "c \<in> set (visited ops (Cabinet sz))"
  shows "length (mStorage c) \<le> unat (mSize c) \<and> int (unat (mSize c)) \<le> sint sz \<and>
         int (length (mStorage c)) \<le> sint sz \<and>
         (sint sz < 65536 \<longrightarrow> (\<exists>extraItem c'. addItem item c = Some (extraItem, c')))"
proof -
  have start: "length (mStorage (Cabinet sz)) \<le> unat (mSize (Cabinet sz))"
    by (simp add: Cabinet_def)
  from visited_within [OF start assms(2)]
  have len: "length (mStorage c) \<le> unat (mSize c)" and sz: "mSize c = mSize (Cabinet sz)"
    by blast+
  have le: "int (unat (mSize c)) \<le> sint sz"
    using Cabinet_size_le [of sz] assms(1) sz by simp
  have ex: "\<exists>extraItem c'. addItem item c = Some (extraItem, c')" if "sint sz < 65536"
    using Cabinet_size_nonzero [OF assms(1) that] sz by (simp add: addItem_succeeds)
  have "int (length (mStorage c)) \<le> sint sz"
    using len le by linarith
  with len le ex show ?thesis by blast
qed

theorem cabinet_never_exceeds_size_witness:
  "visited [AddItem 4, AddItem 5, AddItem 6, PopBack, AddItem 7] (Cabinet 2) =
     [\<lparr>mSize = 2, mStorage = []\<rparr>, \<lparr>mSize = 2, mStorage = [4]\<rparr>, \<lparr>mSize = 2, mStorage = [5, 4]\<rparr>,
      \<lparr>mSize = 2, mStorage = [6, 5]\<rparr>, \<lparr>mSize = 2, mStorage = [6]\<rparr>, \<lparr>mSize = 2, mStorage = [7, 6]\<rparr>] \<and>
   (1::int) \<le> sint (2 :: 64 word) \<and>
   int (length (mStorage \<lparr>mSize = 2, mStorage = [6 :: Item, 5]\<rparr>)) \<le> sint (2 :: 64 word) \<and>
   sint (2 :: 64 word) < 65536 \<and>
   (\<exists>extraItem c'. addItem 9 \<lparr>mSize = 2, mStorage = [6, 5]\<rparr> = Some (extraItem, c'))"
proof -
  have run: "visited [AddItem 4, AddItem 5, AddItem 6, PopBack, AddItem 7] (Cabinet 2) =
     [\<lparr>mSize = 2, mStorage = []\<rparr>, \<lparr>mSize = 2, mStorage = [4]\<rparr>, \<lparr>mSize = 2, mStorage = [5, 4]\<rparr>,
      \<lparr>mSize = 2, mStorage = [6, 5]\<rparr>, \<lparr>mSize = 2, mStorage = [6]\<rparr>, \<lparr>mSize = 2, mStorage = [7, 6]\<rparr>]"
    by (simp add: cabinet_defs)
  have one: "(1::int) \<le> sint (2 :: 64 word)" by simp
  have mem: "\<lparr>mSize = 2, mStorage = [6, 5]\<rparr> \<in>
             set (visited [AddItem 4, AddItem 5, AddItem 6, PopBack, AddItem 7] (Cabinet 2))"
    unfolding run by simp
  have small: "sint (2 :: 64 word) < 65536" by simp
  from cabinet_never_exceeds_size [OF one mem, of 9] small
  have bound: "int (length (mStorage \<lparr>mSize = 2, mStorage = [6 :: Item, 5]\<rparr>)) \<le> sint (2 :: 64 word)"
    and adds: "\<exists>extraItem c'. addItem 9 \<lparr>mSize = 2, mStorage = [6, 5]\<rparr> = Some (extraItem, c')"
    by blast+
  from run one bound small adds show ?thesis by blast
qed



lemma addItem_all_fits:
  "length (mStorage c) + length items \<le> unat (mSize c) \<Longrightarrow>
   addItem_all items c =
     Some (replicate (length items) kSentinelItem, c\<lparr>mStorage := rev items @ mStorage c\<rparr>)"
proof (induction items arbitrary: c)
  case Nil
  show ?case by simp
next
  case (Cons item items)
  have fits: "hasSpace c" using Cons.prems by (simp add: hasSpace_def)
  have "length (mStorage (c\<lparr>mStorage := item # mStorage c\<rparr>)) + length items
        \<le> unat (mSize (c\<lparr>mStorage := item # mStorage c\<rparr>))"
    using Cons.prems by simp
  from Cons.IH [OF this] fits show ?case
    by (simp add: addItem_def)
qed

text \<open>
  C8. \<^verbatim>\<open>addItem\<close> on a cabinet holding fewer items than its size puts the item at the
  front and returns the sentinel (nothing was popped). On a cabinet of size at least 1
  that is full it pops the item at the back, the one added longest ago, returns it, and
  puts the new item at the front. In particular, after 1024 items were added to a cabinet
  of size 1024, adding one more pops exactly the first of the 1024.
\<close>

theorem addItem_inserts_or_evicts:
  "(length (mStorage c) < unat (mSize c) \<longrightarrow>
      addItem item c = Some (kSentinelItem, c\<lparr>mStorage := item # mStorage c\<rparr>)) \<and>
   (\<not> length (mStorage c) < unat (mSize c) \<and> mSize c \<noteq> 0 \<longrightarrow>
      addItem item c = Some (last (mStorage c), c\<lparr>mStorage := item # butlast (mStorage c)\<rparr>)) \<and>
   (length items = 1024 \<longrightarrow>
      addItem_all items (Cabinet 1024) =
        Some (replicate 1024 kSentinelItem, \<lparr>mSize = 1024, mStorage = rev items\<rparr>) \<and>
      addItem item \<lparr>mSize = 1024, mStorage = rev items\<rparr> =
        Some (hd items, \<lparr>mSize = 1024, mStorage = item # rev (tl items)\<rparr>))"
proof (intro conjI impI)
  assume "length (mStorage c) < unat (mSize c)"
  then show "addItem item c = Some (kSentinelItem, c\<lparr>mStorage := item # mStorage c\<rparr>)"
    by (simp add: addItem_def hasSpace_def)
next
  assume full: "\<not> length (mStorage c) < unat (mSize c) \<and> mSize c \<noteq> 0"
  then have "unat (mSize c) \<noteq> 0" by (simp add: unat_eq_0)
  with full have "mStorage c \<noteq> []" by auto
  with full show "addItem item c =
      Some (last (mStorage c), c\<lparr>mStorage := item # butlast (mStorage c)\<rparr>)"
    by (simp add: addItem_def hasSpace_def)
next
  assume len: "length items = 1024"
  have "length (mStorage (Cabinet 1024)) + length items \<le> unat (mSize (Cabinet 1024))"
    using len by (simp add: Cabinet_def)
  from addItem_all_fits [OF this] len
  show "addItem_all items (Cabinet 1024) =
        Some (replicate 1024 kSentinelItem, \<lparr>mSize = 1024, mStorage = rev items\<rparr>)"
    by (simp add: Cabinet_def)
next
  assume len: "length items = 1024"
  then have ne: "items \<noteq> []" by auto
  then have "last (rev items) = hd items" by (simp add: last_rev)
  with len ne show "addItem item \<lparr>mSize = 1024, mStorage = rev items\<rparr> =
        Some (hd items, \<lparr>mSize = 1024, mStorage = item # rev (tl items)\<rparr>)"
    by (simp add: addItem_def hasSpace_def butlast_rev)
qed

theorem addItem_inserts_or_evicts_witness:
  "addItem 8 \<lparr>mSize = 2, mStorage = [7]\<rparr> = Some (kSentinelItem, \<lparr>mSize = 2, mStorage = [8, 7]\<rparr>) \<and>
   addItem 9 \<lparr>mSize = 2, mStorage = [8, 7]\<rparr> = Some (7, \<lparr>mSize = 2, mStorage = [9, 8]\<rparr>) \<and>
   length (map word_of_nat [0..<1024] :: Item list) = 1024 \<and>
   addItem_all (map word_of_nat [0..<1024]) (Cabinet 1024) =
     Some (replicate 1024 kSentinelItem, \<lparr>mSize = 1024, mStorage = rev (map word_of_nat [0..<1024])\<rparr>) \<and>
   addItem 1024 \<lparr>mSize = 1024, mStorage = rev (map word_of_nat [0..<1024])\<rparr> =
     Some (0, \<lparr>mSize = 1024, mStorage = 1024 # rev (map word_of_nat [1..<1024])\<rparr>)"
proof -
  have len: "length (map word_of_nat [0..<1024] :: Item list) = 1024" by simp
  have a: "addItem 8 \<lparr>mSize = 2, mStorage = [7]\<rparr> =
           Some (kSentinelItem, \<lparr>mSize = 2, mStorage = [8, 7]\<rparr>)"
    using addItem_inserts_or_evicts [of "\<lparr>mSize = 2, mStorage = [7]\<rparr>" 8] by simp
  have b: "addItem 9 \<lparr>mSize = 2, mStorage = [8, 7]\<rparr> = Some (7, \<lparr>mSize = 2, mStorage = [9, 8]\<rparr>)"
    using addItem_inserts_or_evicts [of "\<lparr>mSize = 2, mStorage = [8, 7]\<rparr>" 9] by simp
  have hd0: "hd (map word_of_nat [0..<1024] :: Item list) = 0"
    by (simp add: hd_map)
  have tl0: "tl (map word_of_nat [0..<1024] :: Item list) = map word_of_nat [1..<1024]"
    by (simp add: map_tl [symmetric] del: upt_rec_numeral)
  from addItem_inserts_or_evicts [of _ 1024 "map word_of_nat [0..<1024]"] len
  have c: "addItem_all (map word_of_nat [0..<1024]) (Cabinet 1024) =
     Some (replicate 1024 kSentinelItem, \<lparr>mSize = 1024, mStorage = rev (map word_of_nat [0..<1024])\<rparr>) \<and>
   addItem 1024 \<lparr>mSize = 1024, mStorage = rev (map word_of_nat [0..<1024])\<rparr> =
     Some (hd (map word_of_nat [0..<1024]), \<lparr>mSize = 1024, mStorage = 1024 # rev (tl (map word_of_nat [0..<1024]))\<rparr>)"
    by blast
  from a b len c show ?thesis
    unfolding hd0 tl0 by blast
qed

subsection \<open>Putting the workbench item into the cabinets\<close>

lemma addItem_result:
  assumes "addItem item c = Some (extraItem, c')"
  shows "mSize c' = mSize c"
    and "hd (mStorage c') = item" and "mStorage c' \<noteq> []"
    and "set (mStorage c') \<subseteq> insert item (set (mStorage c))"
    and "extraItem = kSentinelItem \<or> extraItem \<in> set (mStorage c)"
    and "hasSpace c \<Longrightarrow> extraItem = kSentinelItem"
  using assms
  by (auto simp: addItem_def split: if_splits dest: in_set_butlastD)

lemma putInCabinet_loop_succeeds:
  "list_all (\<lambda>c. mSize c \<noteq> 0) cabinets \<Longrightarrow>
   \<exists>item' extraItem' cabinets'.
     putInCabinet_loop item extraItem cabinets = Some (item', extraItem', cabinets')"
proof (induction cabinets arbitrary: item extraItem)
  case Nil
  show ?case by simp
next
  case (Cons c rest)
  then obtain e c' where add: "addItem item c = Some (e, c')"
    using addItem_succeeds [of c item] by auto
  show ?case
  proof (cases "e = kSentinelItem")
    case True
    with add show ?thesis by simp
  next
    case False
    from Cons.prems have "list_all (\<lambda>c. mSize c \<noteq> 0) rest" by simp
    from Cons.IH [OF this, of e e] obtain i' e' rest'
      where "putInCabinet_loop e e rest = Some (i', e', rest')" by blast
    with add False show ?thesis by simp
  qed
qed

lemma putInCabinet_loop_Cons:
  assumes "putInCabinet_loop item extraItem (c # rest) = Some (item', extraItem', cabinets')"
  obtains (stop) c' where "addItem item c = Some (kSentinelItem, c')"
      and "item' = item" and "extraItem' = kSentinelItem" and "cabinets' = c' # rest"
  | (go) e c' rest' where "addItem item c = Some (e, c')" and "e \<noteq> kSentinelItem"
      and "putInCabinet_loop e e rest = Some (item', extraItem', rest')"
      and "cabinets' = c' # rest'"
proof -
  from assms obtain e c' where add: "addItem item c = Some (e, c')"
    by (cases "addItem item c") auto
  show thesis
  proof (cases "e = kSentinelItem")
    case True
    with assms add show thesis by (intro stop [of c']) simp_all
  next
    case False
    with assms add obtain r where rec: "putInCabinet_loop e e rest = Some r"
      by (cases "putInCabinet_loop e e rest") auto
    obtain i' e' rest' where r: "r = (i', e', rest')" by (cases r) auto
    with assms add False rec show thesis by (intro go [of e c' rest']) simp_all
  qed
qed


lemma putInCabinet_loop_sizes:
  "putInCabinet_loop item extraItem cabinets = Some (item', extraItem', cabinets') \<Longrightarrow>
   map mSize cabinets' = map mSize cabinets"
proof (induction cabinets arbitrary: item extraItem cabinets')
  case Nil
  then show ?case by simp
next
  case (Cons c rest)
  from Cons.prems show ?case
  proof (cases rule: putInCabinet_loop_Cons)
    case (stop c')
    then show ?thesis using addItem_result(1) [OF stop(1)] by simp
  next
    case (go e c' rest')
    then show ?thesis using addItem_result(1) [OF go(1)] Cons.IH [OF go(3)] by simp
  qed
qed

lemma putInCabinet_loop_item:
  "putInCabinet_loop item extraItem cabinets = Some (item', extraItem', cabinets') \<Longrightarrow>
   item \<noteq> kSentinelItem \<Longrightarrow> item' \<noteq> kSentinelItem"
proof (induction cabinets arbitrary: item extraItem cabinets')
  case Nil
  then show ?case by simp
next
  case (Cons c rest)
  from Cons.prems(1) show ?case
  proof (cases rule: putInCabinet_loop_Cons)
    case (stop c')
    then show ?thesis using Cons.prems(2) by simp
  next
    case (go e c' rest')
    then show ?thesis using Cons.IH [OF go(3)] by simp
  qed
qed


lemma putInCabinet_loop_stored:
  "putInCabinet_loop item extraItem cabinets = Some (item', extraItem', cabinets') \<Longrightarrow>
   set (concat (map mStorage cabinets')) \<subseteq> insert item (set (concat (map mStorage cabinets)))"
proof (induction cabinets arbitrary: item extraItem cabinets')
  case Nil
  then show ?case by simp
next
  case (Cons c rest)
  from Cons.prems(1) show ?case
  proof (cases rule: putInCabinet_loop_Cons)
    case (stop c')
    then show ?thesis using addItem_result(4) [OF stop(1)] by auto
  next
    case (go e c' rest')
    from go(2) have e: "e \<in> set (mStorage c)" using addItem_result(5) [OF go(1)] by blast
    from Cons.IH [OF go(3)] e addItem_result(4) [OF go(1)] go(4) show ?thesis by auto
  qed
qed

lemma putInCabinet_loop_extraItem:
  "putInCabinet_loop item extraItem cabinets = Some (item', extraItem', cabinets') \<Longrightarrow>
   extraItem' = kSentinelItem \<or> extraItem' = extraItem \<and> cabinets = [] \<or>
   extraItem' \<in> set (concat (map mStorage cabinets))"
proof (induction cabinets arbitrary: item extraItem cabinets')
  case Nil
  then show ?case by simp
next
  case (Cons c rest)
  from Cons.prems(1) show ?case
  proof (cases rule: putInCabinet_loop_Cons)
    case (stop c')
    then show ?thesis by simp
  next
    case (go e c' rest')
    from go(2) have e: "e \<in> set (mStorage c)" using addItem_result(5) [OF go(1)] by blast
    from Cons.IH [OF go(3)] e show ?thesis by auto
  qed
qed

lemma putInCabinet_loop_front:
  assumes "putInCabinet_loop item extraItem (c # rest) = Some (item', extraItem', cabinets')"
  shows "\<exists>c' rest'. cabinets' = c' # rest' \<and> mStorage c' \<noteq> [] \<and> hd (mStorage c') = item"
  using assms
proof (cases rule: putInCabinet_loop_Cons)
  case (stop c')
  then show ?thesis using addItem_result(2,3) [OF stop(1)] by blast
next
  case (go e c' rest')
  then show ?thesis using addItem_result(2,3) [OF go(1)] by blast
qed


lemma same_sizes:
  assumes "map mSize cabinets' = map mSize cabinets"
  shows "list_all (\<lambda>c. mSize c \<noteq> 0) cabinets' = list_all (\<lambda>c. mSize c \<noteq> 0) cabinets"
    and "length cabinets' = length cabinets"
proof -
  have "list_all (\<lambda>s. s \<noteq> 0) (map mSize cabinets') = list_all (\<lambda>s. s \<noteq> 0) (map mSize cabinets)"
    using assms by simp
  then show "list_all (\<lambda>c. mSize c \<noteq> 0) cabinets' = list_all (\<lambda>c. mSize c \<noteq> 0) cabinets"
    by (simp add: list.pred_map comp_def)
  show "length cabinets' = length cabinets"
    using assms by (rule map_eq_imp_length_eq)
qed

lemma putInCabinet_eq:
  assumes "putInCabinet_loop item kSentinelItem (mCabinets ws) = Some (item', extraItem', cabinets')"
    and "item' \<noteq> kSentinelItem"
    and "addItem extraItem' (mOutside ws) = Some (popped, outside')"
  shows "putInCabinet item ws = Some (ws\<lparr>mOutside := outside', mCabinets := cabinets'\<rparr>)"
  using assms by (simp add: putInCabinet_def)

lemma putInCabinet_sentinel_eq:
  assumes "putInCabinet_loop item kSentinelItem (mCabinets ws) = Some (kSentinelItem, extraItem', cabinets')"
  shows "putInCabinet item ws = Some (ws\<lparr>mCabinets := cabinets'\<rparr>)"
  using assms by (simp add: putInCabinet_def)

lemma workOn_clear_empty:
  "mStorage (mWorkbench ws) = [] \<Longrightarrow> workOn_clear ws = Some ws"
  by (simp add: workOn_clear_def empty_cab_def)

lemma workOn_clear_one:
  "mStorage (mWorkbench ws) = [w] \<Longrightarrow>
   workOn_clear ws = putInCabinet w (ws\<lparr>mWorkbench := (mWorkbench ws)\<lparr>mStorage := []\<rparr>\<rparr>)"
  by (simp add: workOn_clear_def empty_cab_def pop_back_def)




lemma workOn_clear_shaped:
  assumes "shaped ws"
  shows "\<exists>ws'. workOn_clear ws = Some ws' \<and> shaped ws' \<and> mStorage (mWorkbench ws') = [] \<and>
           map mSize (mCabinets ws') = map mSize (mCabinets ws) \<and>
           mSize (mOutside ws') = mSize (mOutside ws) \<and>
           set (stored ws') \<subseteq> insert kSentinelItem (set (stored ws))"
proof (cases "mStorage (mWorkbench ws)")
  case Nil
  with assms workOn_clear_empty [OF Nil] show ?thesis by auto
next
  case (Cons w rest)
  with assms have one: "mStorage (mWorkbench ws) = [w]" by (simp add: shaped_def)
  let ?ws = "ws\<lparr>mWorkbench := (mWorkbench ws)\<lparr>mStorage := []\<rparr>\<rparr>"
  from assms have sizes: "list_all (\<lambda>c. mSize c \<noteq> 0) (mCabinets ?ws)"
    and out: "mSize (mOutside ws) \<noteq> 0"
    by (simp_all add: shaped_def)
  from putInCabinet_loop_succeeds [OF sizes] obtain item' extraItem' cabinets'
    where loop: "putInCabinet_loop w kSentinelItem (mCabinets ?ws) = Some (item', extraItem', cabinets')"
    by blast
  note same = same_sizes [OF putInCabinet_loop_sizes [OF loop]]
  have cabs: "set (concat (map mStorage cabinets')) \<subseteq> insert w (set (concat (map mStorage (mCabinets ws))))"
    using putInCabinet_loop_stored [OF loop] by simp
  have extra: "extraItem' = kSentinelItem \<or> extraItem' \<in> set (concat (map mStorage (mCabinets ws)))"
    using putInCabinet_loop_extraItem [OF loop] by auto
  show ?thesis
  proof (cases "item' = kSentinelItem")
    case True
    have clear: "workOn_clear ws = Some (?ws\<lparr>mCabinets := cabinets'\<rparr>)"
      using putInCabinet_sentinel_eq [of w ?ws extraItem' cabinets'] loop True
        workOn_clear_one [OF one] by simp
    have "shaped (?ws\<lparr>mCabinets := cabinets'\<rparr>)"
      using assms same by (simp add: shaped_def)
    moreover have "set (stored (?ws\<lparr>mCabinets := cabinets'\<rparr>)) \<subseteq> insert kSentinelItem (set (stored ws))"
      using cabs one by (auto simp: stored_def)
    ultimately show ?thesis
      using clear putInCabinet_loop_sizes [OF loop] by simp
  next
    case False
    from addItem_succeeds [OF out, of extraItem'] obtain popped outside'
      where add: "addItem extraItem' (mOutside ?ws) = Some (popped, outside')"
      by auto
    have clear: "workOn_clear ws = Some (?ws\<lparr>mOutside := outside', mCabinets := cabinets'\<rparr>)"
      using putInCabinet_eq [OF loop False add] workOn_clear_one [OF one] by simp
    have "shaped (?ws\<lparr>mOutside := outside', mCabinets := cabinets'\<rparr>)"
      using assms same addItem_result(1) [OF add] by (simp add: shaped_def)
    moreover have "set (stored (?ws\<lparr>mOutside := outside', mCabinets := cabinets'\<rparr>))
                   \<subseteq> insert kSentinelItem (set (stored ws))"
      using cabs one extra addItem_result(4) [OF add] by (auto simp: stored_def)
    ultimately show ?thesis
      using clear putInCabinet_loop_sizes [OF loop] addItem_result(1) [OF add] by simp
  qed
qed

subsection \<open>Looking for the item\<close>

lemma workOn_find_outside:
  assumes "item \<in> set (mStorage (mOutside ws))"
    and "mStorage (mWorkbench ws) = []" and "mSize (mWorkbench ws) = 1"
  shows "workOn_find item ws =
         Some (Result_str ''OUTSIDE'',
               ws\<lparr>mOutside := (mOutside ws)\<lparr>mStorage := remove1 item (mStorage (mOutside ws))\<rparr>,
                  mWorkbench := (mWorkbench ws)\<lparr>mStorage := [item]\<rparr>\<rparr>)"
  using assms find_cab_end_iff [of item "mOutside ws"]
  by (simp add: workOn_find_def Let_def pop_find_cab addItem_empty_one)

lemma workOn_find_cabinets:
  assumes "item \<notin> set (mStorage (mOutside ws))"
  shows "workOn_find item ws = workOn_cabinets item ws 0"
  using assms find_cab_end_iff [of item "mOutside ws"]
  by (simp add: workOn_find_def Let_def)

lemma unat_cabinet_nr:
  assumes "k < length (cabinets :: Cabinet list)" and "length cabinets \<le> 2147483647"
  shows "unat (word_of_nat (k + 1) :: 64 word) = k + 1"
proof -
  have "k + 1 < 2 ^ 64" using assms by simp
  then have "(k + 1) mod 2 ^ LENGTH(64) = k + 1" by simp
  then show ?thesis by (simp only: unat_of_nat)
qed


text \<open>
  C5. \<^verbatim>\<open>workOn\<close> first clears the workbench. Then it looks for the item outside, and
  only if it is not there in the cabinets, in ascending order, stopping at the first that
  holds it. The item is erased where it was found and put on the now empty workbench. The
  result is \<^verbatim>\<open>OUTSIDE\<close>, or the number \<open>k + 1\<close> of the cabinet with index \<open>k\<close>, or
  \<^verbatim>\<open>NEW\<close> when the item is in no store.
\<close>

theorem workOn_finds_first:
  assumes "shaped ws"
  shows "\<exists>ws'. workOn_clear ws = Some ws' \<and> mStorage (mWorkbench ws') = [] \<and>
     (item \<in> set (mStorage (mOutside ws')) \<longrightarrow>
        workOn item ws =
          Some (Result_str ''OUTSIDE'',
                ws'\<lparr>mOutside := (mOutside ws')\<lparr>mStorage := remove1 item (mStorage (mOutside ws'))\<rparr>,
                    mWorkbench := (mWorkbench ws')\<lparr>mStorage := [item]\<rparr>\<rparr>)) \<and>
     (\<forall>k. item \<notin> set (mStorage (mOutside ws')) \<and> k < length (mCabinets ws') \<and>
          item \<in> set (mStorage (mCabinets ws' ! k)) \<and>
          (\<forall>i. i < k \<longrightarrow> item \<notin> set (mStorage (mCabinets ws' ! i))) \<longrightarrow>
        workOn item ws =
          Some (Result_nr (word_of_nat (k + 1)),
                ws'\<lparr>mWorkbench := (mWorkbench ws')\<lparr>mStorage := [item]\<rparr>,
                    mCabinets := (mCabinets ws')
                      [k := (mCabinets ws' ! k)
                         \<lparr>mStorage := remove1 item (mStorage (mCabinets ws' ! k))\<rparr>]\<rparr>) \<and>
        unat (word_of_nat (k + 1) :: 64 word) = k + 1) \<and>
     (item \<notin> set (mStorage (mOutside ws')) \<and>
      (\<forall>i. i < length (mCabinets ws') \<longrightarrow> item \<notin> set (mStorage (mCabinets ws' ! i))) \<longrightarrow>
        workOn item ws =
          Some (Result_str ''NEW'', ws'\<lparr>mWorkbench := (mWorkbench ws')\<lparr>mStorage := [item]\<rparr>\<rparr>))"
proof -
  from workOn_clear_shaped [OF assms] obtain ws'
    where clear: "workOn_clear ws = Some ws'" and shaped: "shaped ws'"
      and empty: "mStorage (mWorkbench ws') = []"
    by blast
  from shaped have one: "mSize (mWorkbench ws') = 1" and len: "length (mCabinets ws') \<le> 2147483647"
    by (simp_all add: shaped_def)
  have work: "workOn item ws = workOn_find item ws'"
    using clear by (simp add: workOn_def)
  have outside: "workOn item ws =
          Some (Result_str ''OUTSIDE'',
                ws'\<lparr>mOutside := (mOutside ws')\<lparr>mStorage := remove1 item (mStorage (mOutside ws'))\<rparr>,
                    mWorkbench := (mWorkbench ws')\<lparr>mStorage := [item]\<rparr>\<rparr>)"
    if "item \<in> set (mStorage (mOutside ws'))"
    using that work workOn_find_outside [OF that empty one] by simp
  have cabinet: "workOn item ws =
          Some (Result_nr (word_of_nat (k + 1)),
                ws'\<lparr>mWorkbench := (mWorkbench ws')\<lparr>mStorage := [item]\<rparr>,
                    mCabinets := (mCabinets ws')
                      [k := (mCabinets ws' ! k)
                         \<lparr>mStorage := remove1 item (mStorage (mCabinets ws' ! k))\<rparr>]\<rparr>) \<and>
        unat (word_of_nat (k + 1) :: 64 word) = k + 1"
    if "item \<notin> set (mStorage (mOutside ws')) \<and> k < length (mCabinets ws') \<and>
          item \<in> set (mStorage (mCabinets ws' ! k)) \<and>
          (\<forall>i. i < k \<longrightarrow> item \<notin> set (mStorage (mCabinets ws' ! i)))" for k
  proof -
    from that have a: "item \<notin> set (mStorage (mOutside ws'))" and b: "k < length (mCabinets ws')"
      and c: "item \<in> set (mStorage (mCabinets ws' ! k))"
      and d: "\<forall>i. 0 \<le> i \<and> i < k \<longrightarrow> item \<notin> set (mStorage (mCabinets ws' ! i))"
      by simp_all
    have "0 \<le> k" by simp
    from workOn_cabinets_found [OF len empty one this b c d] work workOn_find_cabinets [OF a]
      unat_cabinet_nr [OF b len]
    show ?thesis by simp
  qed
  have new: "workOn item ws =
          Some (Result_str ''NEW'', ws'\<lparr>mWorkbench := (mWorkbench ws')\<lparr>mStorage := [item]\<rparr>\<rparr>)"
    if "item \<notin> set (mStorage (mOutside ws')) \<and>
      (\<forall>i. i < length (mCabinets ws') \<longrightarrow> item \<notin> set (mStorage (mCabinets ws' ! i)))"
  proof -
    from that have a: "item \<notin> set (mStorage (mOutside ws'))"
      and d: "\<forall>i. 0 \<le> i \<and> i < length (mCabinets ws') \<longrightarrow> item \<notin> set (mStorage (mCabinets ws' ! i))"
      by simp_all
    from workOn_cabinets_NEW [OF len empty one d] work workOn_find_cabinets [OF a]
    show ?thesis by simp
  qed
  from clear empty outside cabinet new show ?thesis by blast
qed


theorem workOn_finds_first_witness:
  "shaped \<lparr>mOutside = \<lparr>mSize = 65535, mStorage = [1, kSentinelItem, kSentinelItem]\<rparr>,
           mWorkbench = \<lparr>mSize = 1, mStorage = [4]\<rparr>,
           mCabinets = [\<lparr>mSize = 1, mStorage = [3]\<rparr>, \<lparr>mSize = 1, mStorage = [2]\<rparr>]\<rparr> \<and>
   workOn_clear \<lparr>mOutside = \<lparr>mSize = 65535, mStorage = [1, kSentinelItem, kSentinelItem]\<rparr>,
                 mWorkbench = \<lparr>mSize = 1, mStorage = [4]\<rparr>,
                 mCabinets = [\<lparr>mSize = 1, mStorage = [3]\<rparr>, \<lparr>mSize = 1, mStorage = [2]\<rparr>]\<rparr> =
     Some \<lparr>mOutside = \<lparr>mSize = 65535, mStorage = [2, 1, kSentinelItem, kSentinelItem]\<rparr>,
           mWorkbench = \<lparr>mSize = 1, mStorage = []\<rparr>,
           mCabinets = [\<lparr>mSize = 1, mStorage = [4]\<rparr>, \<lparr>mSize = 1, mStorage = [3]\<rparr>]\<rparr> \<and>
   workOn 1 \<lparr>mOutside = \<lparr>mSize = 65535, mStorage = [1, kSentinelItem, kSentinelItem]\<rparr>,
             mWorkbench = \<lparr>mSize = 1, mStorage = [4]\<rparr>,
             mCabinets = [\<lparr>mSize = 1, mStorage = [3]\<rparr>, \<lparr>mSize = 1, mStorage = [2]\<rparr>]\<rparr> =
     Some (Result_str ''OUTSIDE'',
           \<lparr>mOutside = \<lparr>mSize = 65535, mStorage = [2, kSentinelItem, kSentinelItem]\<rparr>,
            mWorkbench = \<lparr>mSize = 1, mStorage = [1]\<rparr>,
            mCabinets = [\<lparr>mSize = 1, mStorage = [4]\<rparr>, \<lparr>mSize = 1, mStorage = [3]\<rparr>]\<rparr>) \<and>
   workOn 3 \<lparr>mOutside = \<lparr>mSize = 65535, mStorage = [1, kSentinelItem, kSentinelItem]\<rparr>,
             mWorkbench = \<lparr>mSize = 1, mStorage = [4]\<rparr>,
             mCabinets = [\<lparr>mSize = 1, mStorage = [3]\<rparr>, \<lparr>mSize = 1, mStorage = [2]\<rparr>]\<rparr> =
     Some (Result_nr 2,
           \<lparr>mOutside = \<lparr>mSize = 65535, mStorage = [2, 1, kSentinelItem, kSentinelItem]\<rparr>,
            mWorkbench = \<lparr>mSize = 1, mStorage = [3]\<rparr>,
            mCabinets = [\<lparr>mSize = 1, mStorage = [4]\<rparr>, \<lparr>mSize = 1, mStorage = []\<rparr>]\<rparr>) \<and>
   workOn 9 \<lparr>mOutside = \<lparr>mSize = 65535, mStorage = [1, kSentinelItem, kSentinelItem]\<rparr>,
             mWorkbench = \<lparr>mSize = 1, mStorage = [4]\<rparr>,
             mCabinets = [\<lparr>mSize = 1, mStorage = [3]\<rparr>, \<lparr>mSize = 1, mStorage = [2]\<rparr>]\<rparr> =
     Some (Result_str ''NEW'',
           \<lparr>mOutside = \<lparr>mSize = 65535, mStorage = [2, 1, kSentinelItem, kSentinelItem]\<rparr>,
            mWorkbench = \<lparr>mSize = 1, mStorage = [9]\<rparr>,
            mCabinets = [\<lparr>mSize = 1, mStorage = [4]\<rparr>, \<lparr>mSize = 1, mStorage = [3]\<rparr>]\<rparr>)"
proof -
  let ?ws = "\<lparr>mOutside = \<lparr>mSize = 65535, mStorage = [1, kSentinelItem, kSentinelItem]\<rparr>,
             mWorkbench = \<lparr>mSize = 1, mStorage = [4]\<rparr>,
             mCabinets = [\<lparr>mSize = 1, mStorage = [3]\<rparr>, \<lparr>mSize = 1, mStorage = [2]\<rparr>]\<rparr>"
  let ?ws' = "\<lparr>mOutside = \<lparr>mSize = 65535, mStorage = [2, 1, kSentinelItem, kSentinelItem]\<rparr>,
           mWorkbench = \<lparr>mSize = 1, mStorage = []\<rparr>,
           mCabinets = [\<lparr>mSize = 1, mStorage = [4]\<rparr>, \<lparr>mSize = 1, mStorage = [3 :: Item]\<rparr>]\<rparr>"
  have shaped: "shaped ?ws" by (simp add: shaped_def)
  have clear: "workOn_clear ?ws = Some ?ws'"
    by (simp add: workOn_clear_def putInCabinet_def addItem_def pop_back_def hasSpace_def
        empty_cab_def kSentinelItem_def)
  have outside: "workOn 1 ?ws =
     Some (Result_str ''OUTSIDE'',
           \<lparr>mOutside = \<lparr>mSize = 65535, mStorage = [2, kSentinelItem, kSentinelItem]\<rparr>,
            mWorkbench = \<lparr>mSize = 1, mStorage = [1]\<rparr>,
            mCabinets = [\<lparr>mSize = 1, mStorage = [4]\<rparr>, \<lparr>mSize = 1, mStorage = [3]\<rparr>]\<rparr>)"
    using workOn_finds_first [OF shaped, of 1] by (simp add: clear)
  have cabinet: "workOn 3 ?ws =
     Some (Result_nr 2,
           \<lparr>mOutside = \<lparr>mSize = 65535, mStorage = [2, 1, kSentinelItem, kSentinelItem]\<rparr>,
            mWorkbench = \<lparr>mSize = 1, mStorage = [3]\<rparr>,
            mCabinets = [\<lparr>mSize = 1, mStorage = [4]\<rparr>, \<lparr>mSize = 1, mStorage = []\<rparr>]\<rparr>)"
  proof -
    have ne: "(3 :: Item) \<noteq> kSentinelItem" by (simp add: kSentinelItem_def)
    from workOn_finds_first [OF shaped, of 3] obtain ws'
      where a: "workOn_clear ?ws = Some ws'"
        and b: "\<forall>k. 3 \<notin> set (mStorage (mOutside ws')) \<and> k < length (mCabinets ws') \<and>
          3 \<in> set (mStorage (mCabinets ws' ! k)) \<and>
          (\<forall>i. i < k \<longrightarrow> 3 \<notin> set (mStorage (mCabinets ws' ! i))) \<longrightarrow>
        workOn 3 ?ws =
          Some (Result_nr (word_of_nat (k + 1)),
                ws'\<lparr>mWorkbench := (mWorkbench ws')\<lparr>mStorage := [3]\<rparr>,
                    mCabinets := (mCabinets ws')
                      [k := (mCabinets ws' ! k)
                         \<lparr>mStorage := remove1 3 (mStorage (mCabinets ws' ! k))\<rparr>]\<rparr>) \<and>
        unat (word_of_nat (k + 1) :: 64 word) = k + 1"
      by blast
    from a clear have "ws' = ?ws'" by simp
    with b [rule_format, of 1] ne show ?thesis
      by (simp add: less_Suc_eq)
  qed
  have new: "workOn 9 ?ws =
     Some (Result_str ''NEW'',
           \<lparr>mOutside = \<lparr>mSize = 65535, mStorage = [2, 1, kSentinelItem, kSentinelItem]\<rparr>,
            mWorkbench = \<lparr>mSize = 1, mStorage = [9]\<rparr>,
            mCabinets = [\<lparr>mSize = 1, mStorage = [4]\<rparr>, \<lparr>mSize = 1, mStorage = [3]\<rparr>]\<rparr>)"
  proof -
    have ne: "(9 :: Item) \<noteq> kSentinelItem" by (simp add: kSentinelItem_def)
    from workOn_finds_first [OF shaped, of 9] obtain ws'
      where a: "workOn_clear ?ws = Some ws'"
        and b: "9 \<notin> set (mStorage (mOutside ws')) \<and>
          (\<forall>i. i < length (mCabinets ws') \<longrightarrow> 9 \<notin> set (mStorage (mCabinets ws' ! i))) \<longrightarrow>
          workOn 9 ?ws =
            Some (Result_str ''NEW'', ws'\<lparr>mWorkbench := (mWorkbench ws')\<lparr>mStorage := [9]\<rparr>\<rparr>)"
      by blast
    from a clear have "ws' = ?ws'" by simp
    with b ne show ?thesis
      by (simp add: less_Suc_eq)
  qed
  from shaped clear outside cabinet new show ?thesis by blast
qed

subsection \<open>Sequences of calls\<close>

lemma erase_in_cabinets:
  assumes "k < length (cabinets :: Cabinet list)"
  shows "map mSize (cabinets[k := (cabinets ! k)\<lparr>mStorage := remove1 item (mStorage (cabinets ! k))\<rparr>])
         = map mSize cabinets"
    and "set (concat (map mStorage
            (cabinets[k := (cabinets ! k)\<lparr>mStorage := remove1 item (mStorage (cabinets ! k))\<rparr>])))
         \<subseteq> set (concat (map mStorage cabinets))"
proof -
  let ?c = "(cabinets ! k)\<lparr>mStorage := remove1 item (mStorage (cabinets ! k))\<rparr>"
  have "map mSize (cabinets[k := ?c]) = (map mSize cabinets)[k := mSize (cabinets ! k)]"
    by (simp add: map_update)
  also have "\<dots> = map mSize cabinets"
    using assms by (simp add: list_update_same_conv)
  finally show "map mSize (cabinets[k := ?c]) = map mSize cabinets" .
  have "set (mStorage ?c) \<subseteq> set (mStorage (cabinets ! k))"
    by (simp add: set_remove1_subset)
  moreover have "cabinets ! k \<in> set cabinets" using assms by simp
  moreover have "set (cabinets[k := ?c]) \<subseteq> insert ?c (set cabinets)"
    by (rule set_update_subset_insert)
  ultimately have "\<forall>c \<in> set (cabinets[k := ?c]). set (mStorage c) \<subseteq> (\<Union>c \<in> set cabinets. set (mStorage c))"
    by blast
  then show "set (concat (map mStorage (cabinets[k := ?c])))
         \<subseteq> set (concat (map mStorage cabinets))"
    by (simp only: set_concat set_map image_image) blast
qed

lemma first_cabinet_with:
  assumes "\<exists>i. i < length (cabinets :: Cabinet list) \<and> item \<in> set (mStorage (cabinets ! i))"
  shows "\<exists>k. k < length cabinets \<and> item \<in> set (mStorage (cabinets ! k)) \<and>
             (\<forall>i. i < k \<longrightarrow> item \<notin> set (mStorage (cabinets ! i)))"
proof -
  define P where "P i \<longleftrightarrow> i < length cabinets \<and> item \<in> set (mStorage (cabinets ! i))" for i
  from assms have "\<exists>i. P i" by (simp add: P_def)
  then have "\<exists>k. P k \<and> (\<forall>i<k. \<not> P i)" by (subst (asm) exists_least_iff)
  then obtain k where k: "P k" and least: "\<And>i. i < k \<Longrightarrow> \<not> P i" by blast
  from k have len: "k < length cabinets" and mem: "item \<in> set (mStorage (cabinets ! k))"
    by (simp_all add: P_def)
  have "item \<notin> set (mStorage (cabinets ! i))" if "i < k" for i
  proof -
    from that len have "i < length cabinets" by (rule less_trans)
    with least [OF that] show ?thesis by (simp add: P_def)
  qed
  with len mem show ?thesis by blast
qed

lemma workOn_shaped:
  assumes "shaped ws"
  shows "\<exists>res ws'. workOn item ws = Some (res, ws') \<and> shaped ws' \<and>
           map mSize (mCabinets ws') = map mSize (mCabinets ws) \<and>
           mSize (mOutside ws') = mSize (mOutside ws) \<and>
           set (stored ws') \<subseteq> insert item (insert kSentinelItem (set (stored ws)))"
proof -
  from workOn_clear_shaped [OF assms] obtain ws1
    where clear: "workOn_clear ws = Some ws1" and shaped: "shaped ws1"
      and empty: "mStorage (mWorkbench ws1) = []"
      and sizes: "map mSize (mCabinets ws1) = map mSize (mCabinets ws)"
      and out: "mSize (mOutside ws1) = mSize (mOutside ws)"
      and sub: "set (stored ws1) \<subseteq> insert kSentinelItem (set (stored ws))"
    by blast
  from shaped have one: "mSize (mWorkbench ws1) = 1" and len: "length (mCabinets ws1) \<le> 2147483647"
    by (simp_all add: shaped_def)
  have work: "workOn item ws = workOn_find item ws1"
    using clear by (simp add: workOn_def)
  consider (outside) "item \<in> set (mStorage (mOutside ws1))"
    | (cabinet) "item \<notin> set (mStorage (mOutside ws1))"
        "\<exists>i. i < length (mCabinets ws1) \<and> item \<in> set (mStorage (mCabinets ws1 ! i))"
    | (new) "item \<notin> set (mStorage (mOutside ws1))"
        "\<forall>i. 0 \<le> i \<and> i < length (mCabinets ws1) \<longrightarrow> item \<notin> set (mStorage (mCabinets ws1 ! i))"
    by blast
  then show ?thesis
  proof cases
    case outside
    let ?ws' = "ws1\<lparr>mOutside := (mOutside ws1)\<lparr>mStorage := remove1 item (mStorage (mOutside ws1))\<rparr>,
                  mWorkbench := (mWorkbench ws1)\<lparr>mStorage := [item]\<rparr>\<rparr>"
    have a: "workOn item ws = Some (Result_str ''OUTSIDE'', ?ws')"
      using work workOn_find_outside [OF outside empty one] by simp
    have b: "shaped ?ws'" using shaped by (simp add: shaped_def)
    have "set (stored ?ws') \<subseteq> insert item (set (stored ws1))"
      using set_remove1_subset [of item "mStorage (mOutside ws1)"] by (auto simp: stored_def)
    with sub have c: "set (stored ?ws') \<subseteq> insert item (insert kSentinelItem (set (stored ws)))"
      by blast
    have d: "map mSize (mCabinets ?ws') = map mSize (mCabinets ws)" using sizes by simp
    have e: "mSize (mOutside ?ws') = mSize (mOutside ws)" using out by simp
    from a b c d e show ?thesis by blast
  next
    case cabinet
    from first_cabinet_with [OF cabinet(2)] obtain k
      where k: "k < length (mCabinets ws1)" and mem: "item \<in> set (mStorage (mCabinets ws1 ! k))"
        and first: "\<forall>i. 0 \<le> i \<and> i < k \<longrightarrow> item \<notin> set (mStorage (mCabinets ws1 ! i))"
      by auto
    let ?cs = "(mCabinets ws1)
                     [k := (mCabinets ws1 ! k)\<lparr>mStorage := remove1 item (mStorage (mCabinets ws1 ! k))\<rparr>]"
    let ?ws' = "ws1\<lparr>mWorkbench := (mWorkbench ws1)\<lparr>mStorage := [item]\<rparr>, mCabinets := ?cs\<rparr>"
    have "0 \<le> k" by simp
    from workOn_cabinets_found [OF len empty one this k mem first]
    have a: "workOn item ws = Some (Result_nr (word_of_nat (k + 1)), ?ws')"
      using work workOn_find_cabinets [OF cabinet(1)] by simp
    have same: "map mSize ?cs = map mSize (mCabinets ws1)"
      using k by (rule erase_in_cabinets(1))
    have b: "shaped ?ws'"
      using shaped same_sizes [OF same] by (simp add: shaped_def)
    have "set (concat (map mStorage ?cs)) \<subseteq> set (concat (map mStorage (mCabinets ws1)))"
      using k by (rule erase_in_cabinets(2))
    then have "set (stored ?ws') \<subseteq> insert item (set (stored ws1))"
      unfolding stored_def by (simp add: empty) blast
    with sub have c: "set (stored ?ws') \<subseteq> insert item (insert kSentinelItem (set (stored ws)))"
      by blast
    have d: "map mSize (mCabinets ?ws') = map mSize (mCabinets ws)" using sizes same by simp
    have e: "mSize (mOutside ?ws') = mSize (mOutside ws)" using out by simp
    from a b c d e show ?thesis by blast
  next
    case new
    let ?ws' = "ws1\<lparr>mWorkbench := (mWorkbench ws1)\<lparr>mStorage := [item]\<rparr>\<rparr>"
    from workOn_cabinets_NEW [OF len empty one new(2)]
    have a: "workOn item ws = Some (Result_str ''NEW'', ?ws')"
      using work workOn_find_cabinets [OF new(1)] by simp
    have b: "shaped ?ws'" using shaped by (simp add: shaped_def)
    have "set (stored ?ws') \<subseteq> insert item (set (stored ws1))"
      by (auto simp: stored_def)
    with sub have c: "set (stored ?ws') \<subseteq> insert item (insert kSentinelItem (set (stored ws)))"
      by blast
    have d: "map mSize (mCabinets ?ws') = map mSize (mCabinets ws)" using sizes by simp
    have e: "mSize (mOutside ?ws') = mSize (mOutside ws)" using out by simp
    from a b c d e show ?thesis by blast
  qed
qed


lemma workOn_twice:
  assumes "shaped ws" and "x \<notin> set (stored ws)" and "x \<noteq> kSentinelItem"
    and "mCabinets ws \<noteq> []"
  shows "\<exists>ws1 ws2. workOn x ws = Some (Result_str ''NEW'', ws1) \<and>
                   workOn x ws1 = Some (Result_nr 1, ws2)"
proof -
  \<comment> \<open>the first call\<close>
  from workOn_clear_shaped [OF assms(1)] obtain wa
    where clear: "workOn_clear ws = Some wa" and shaped: "shaped wa"
      and empty: "mStorage (mWorkbench wa) = []"
      and sizes: "map mSize (mCabinets wa) = map mSize (mCabinets ws)"
      and sub: "set (stored wa) \<subseteq> insert kSentinelItem (set (stored ws))"
    by blast
  from shaped have one: "mSize (mWorkbench wa) = 1" and len: "length (mCabinets wa) \<le> 2147483647"
    and nonzero: "list_all (\<lambda>c. mSize c \<noteq> 0) (mCabinets wa)" and out: "mSize (mOutside wa) \<noteq> 0"
    by (simp_all add: shaped_def)
  from sub assms(2,3) have absent: "x \<notin> set (stored wa)" by blast
  then have notout: "x \<notin> set (mStorage (mOutside wa))"
    and notcab: "x \<notin> set (concat (map mStorage (mCabinets wa)))"
    by (simp_all add: stored_def)
  have "\<forall>i. 0 \<le> i \<and> i < length (mCabinets wa) \<longrightarrow> x \<notin> set (mStorage (mCabinets wa ! i))"
    using notcab by auto
  from workOn_cabinets_NEW [OF len empty one this]
  have first: "workOn x ws =
      Some (Result_str ''NEW'', wa\<lparr>mWorkbench := (mWorkbench wa)\<lparr>mStorage := [x]\<rparr>\<rparr>)"
    using clear workOn_find_cabinets [OF notout] by (simp add: workOn_def)
  \<comment> \<open>the second call\<close>
  let ?ws1 = "wa\<lparr>mWorkbench := (mWorkbench wa)\<lparr>mStorage := [x]\<rparr>\<rparr>"
  let ?wb = "?ws1\<lparr>mWorkbench := (mWorkbench ?ws1)\<lparr>mStorage := []\<rparr>\<rparr>"
  from sizes assms(4) have "mCabinets wa \<noteq> []" by auto
  then obtain c rest where cabs: "mCabinets wa = c # rest" by (cases "mCabinets wa") auto
  from putInCabinet_loop_succeeds [OF nonzero] obtain item' extraItem' cabinets'
    where loop: "putInCabinet_loop x kSentinelItem (mCabinets wa) = Some (item', extraItem', cabinets')"
    by blast
  from putInCabinet_loop_front [OF loop [unfolded cabs]] obtain c' rest'
    where cabs': "cabinets' = c' # rest'" and ne: "mStorage c' \<noteq> []" and hd: "hd (mStorage c') = x"
    by blast
  from ne hd have front: "x \<in> set (mStorage c')" by (cases "mStorage c'") auto
  from addItem_succeeds [OF out, of extraItem'] obtain popped outside'
    where add: "addItem extraItem' (mOutside wa) = Some (popped, outside')"
    by blast
  have "extraItem' \<noteq> x"
    using putInCabinet_loop_extraItem [OF loop] assms(3) notcab cabs by auto
  with addItem_result(4) [OF add] notout have notout': "x \<notin> set (mStorage outside')" by auto
  let ?ws2 = "?wb\<lparr>mOutside := outside', mCabinets := cabinets'\<rparr>"
  have "putInCabinet x ?wb = Some ?ws2"
    using putInCabinet_eq [of x ?wb item' extraItem' cabinets' popped outside']
      loop putInCabinet_loop_item [OF loop assms(3)] add by simp
  then have clear2: "workOn_clear ?ws1 = Some ?ws2"
    using workOn_clear_one [of ?ws1 x] by simp
  have len2: "length (mCabinets ?ws2) \<le> 2147483647"
    using len same_sizes(2) [OF putInCabinet_loop_sizes [OF loop]] by simp
  have "workOn_cabinets x ?ws2 0 =
         Some (Result_nr (word_of_nat (0 + 1)),
               ?ws2\<lparr>mWorkbench := (mWorkbench ?ws2)\<lparr>mStorage := [x]\<rparr>,
                  mCabinets := (mCabinets ?ws2)
                     [0 := (mCabinets ?ws2 ! 0)\<lparr>mStorage := remove1 x (mStorage (mCabinets ?ws2 ! 0))\<rparr>]\<rparr>)"
    using front one by (intro workOn_cabinets_found [OF len2]) (simp_all add: cabs')
  then have second: "workOn x ?ws1 = Some (Result_nr 1,
               ?ws2\<lparr>mWorkbench := (mWorkbench ?ws2)\<lparr>mStorage := [x]\<rparr>,
                  mCabinets := (mCabinets ?ws2)
                     [0 := (mCabinets ?ws2 ! 0)\<lparr>mStorage := remove1 x (mStorage (mCabinets ?ws2 ! 0))\<rparr>]\<rparr>)"
    using clear2 workOn_find_cabinets [of x ?ws2] notout' by (simp add: workOn_def)
  from first second show ?thesis by blast
qed

lemma workOn_all_append:
  "workOn_all (items @ items') ws =
     do {
       (ress, ws') \<leftarrow> workOn_all items ws;
       (ress', ws'') \<leftarrow> workOn_all items' ws';
       Some (ress @ ress', ws'')
     }"
proof (induction items arbitrary: ws)
  case Nil
  show ?case by (cases "workOn_all items' ws") auto
next
  case (Cons item items)
  show ?case
  proof (cases "workOn item ws")
    case None
    then show ?thesis by simp
  next
    case (Some r)
    obtain res ws1 where r: "r = (res, ws1)" by (cases r) auto
    show ?thesis
    proof (cases "workOn_all items ws1")
      case None
      with Some r Cons.IH [of ws1] show ?thesis by simp
    next
      case (Some q)
      obtain ress ws2 where q: "q = (ress, ws2)" by (cases q) auto
      show ?thesis
      proof (cases "workOn_all items' ws2")
        case None
        with \<open>workOn item ws = Some r\<close> r Some q Cons.IH [of ws1] show ?thesis by simp
      next
        case (Some p)
        obtain ress' ws3 where "p = (ress', ws3)" by (cases p) auto
        with Some \<open>workOn item ws = Some r\<close> r \<open>workOn_all items ws1 = Some q\<close> q Cons.IH [of ws1]
        show ?thesis by simp
      qed
    qed
  qed
qed

lemma workOn_all_shaped:
  "shaped ws \<Longrightarrow>
   \<exists>ress ws'. workOn_all items ws = Some (ress, ws') \<and> length ress = length items \<and>
     shaped ws' \<and> map mSize (mCabinets ws') = map mSize (mCabinets ws) \<and>
     mSize (mOutside ws') = mSize (mOutside ws) \<and>
     set (stored ws') \<subseteq> set items \<union> insert kSentinelItem (set (stored ws))"
proof (induction items arbitrary: ws)
  case Nil
  then show ?case by auto
next
  case (Cons item items)
  from workOn_shaped [OF Cons.prems, of item] obtain res ws1
    where step: "workOn item ws = Some (res, ws1)" and shaped: "shaped ws1"
      and sizes: "map mSize (mCabinets ws1) = map mSize (mCabinets ws)"
      and out: "mSize (mOutside ws1) = mSize (mOutside ws)"
      and sub: "set (stored ws1) \<subseteq> insert item (insert kSentinelItem (set (stored ws)))"
    by blast
  from Cons.IH [OF shaped] obtain ress ws'
    where rest: "workOn_all items ws1 = Some (ress, ws')" and len: "length ress = length items"
      and shaped': "shaped ws'"
      and sizes': "map mSize (mCabinets ws') = map mSize (mCabinets ws1)"
      and out': "mSize (mOutside ws') = mSize (mOutside ws1)"
      and sub': "set (stored ws') \<subseteq> set items \<union> insert kSentinelItem (set (stored ws1))"
    by blast
  have a: "workOn_all (item # items) ws = Some (res # ress, ws')"
    using step rest by simp
  have b: "length (res # ress) = length (item # items)" using len by simp
  have c: "set (stored ws') \<subseteq> set (item # items) \<union> insert kSentinelItem (set (stored ws))"
    using sub sub' by auto
  have d: "map mSize (mCabinets ws') = map mSize (mCabinets ws)" using sizes sizes' by simp
  have e: "mSize (mOutside ws') = mSize (mOutside ws)" using out out' by simp
  from a b shaped' c d e show ?case by blast
qed

lemma WorkShop_shaped:
  assumes "accepted_cabinetSizes cabinetSizes"
  shows "shaped (WorkShop cabinetSizes)"
proof -
  have "mSize (Cabinet sz) \<noteq> 0" if "sz \<in> set cabinetSizes" for sz
  proof -
    from assms that have "\<not> is_invalid_cabinet_size sz"
      by (simp add: accepted_cabinetSizes_def list_all_iff)
    then have "1 \<le> sint sz" and "sint sz < 65536"
      by (simp_all add: is_invalid_cabinet_size_def)
    then show ?thesis by (rule Cabinet_size_nonzero)
  qed
  then have "list_all (\<lambda>c. mSize c \<noteq> 0) (map Cabinet cabinetSizes)"
    by (simp add: list_all_iff)
  moreover have "length cabinetSizes \<le> 2147483647"
    using assms by (simp add: accepted_cabinetSizes_def)
  ultimately show ?thesis
    by (simp add: shaped_def WorkShop_def Cabinet_def kSentinelItem_def)
qed

lemma WorkShop_stored: "stored (WorkShop cabinetSizes) = []"
  by (simp add: stored_def WorkShop_def Cabinet_def)


text \<open>
  C6. With at least one cabinet, sizes that \<^verbatim>\<open>main\<close> accepts, and any items worked on
  before, working twice in a row on an item \<open>x\<close> that is not the sentinel and was not
  worked on before gives \<^verbatim>\<open>NEW\<close> and then cabinet number 1.
\<close>

theorem workOn_new_item_twice:
  assumes "accepted_cabinetSizes cabinetSizes" and "cabinetSizes \<noteq> []"
    and "x \<notin> set items" and "x \<noteq> kSentinelItem"
  shows "\<exists>ress ws. workOn_all (items @ [x, x]) (WorkShop cabinetSizes) =
                     Some (ress @ [Result_str ''NEW'', Result_nr 1], ws) \<and>
                   length ress = length items"
proof -
  from workOn_all_shaped [OF WorkShop_shaped [OF assms(1)], of items] obtain ress ws
    where run: "workOn_all items (WorkShop cabinetSizes) = Some (ress, ws)"
      and len: "length ress = length items" and shaped: "shaped ws"
      and sizes: "map mSize (mCabinets ws) = map mSize (mCabinets (WorkShop cabinetSizes))"
      and sub: "set (stored ws) \<subseteq> set items \<union> insert kSentinelItem (set (stored (WorkShop cabinetSizes)))"
    by blast
  from sub assms(3,4) have absent: "x \<notin> set (stored ws)"
    by (auto simp: WorkShop_stored)
  from sizes assms(2) have "mCabinets ws \<noteq> []"
    by (auto simp: WorkShop_def)
  from workOn_twice [OF shaped absent assms(4) this] obtain ws1 ws2
    where "workOn x ws = Some (Result_str ''NEW'', ws1)"
      and "workOn x ws1 = Some (Result_nr 1, ws2)"
    by blast
  then have two: "workOn_all [x, x] ws = Some ([Result_str ''NEW'', Result_nr 1], ws2)"
    by simp
  have "workOn_all (items @ [x, x]) (WorkShop cabinetSizes) =
                     Some (ress @ [Result_str ''NEW'', Result_nr 1], ws2)"
    by (simp only: workOn_all_append run two Option.bind.simps prod.case)
  with len show ?thesis by blast
qed

theorem workOn_new_item_twice_witness:
  "accepted_cabinetSizes [2, 1] \<and> (7 :: Item) \<notin> set [10, 20, 10, 30] \<and> (7 :: Item) \<noteq> kSentinelItem \<and>
   (\<exists>ress ws. workOn_all ([10, 20, 10, 30] @ [7, 7]) (WorkShop [2, 1]) =
                 Some (ress @ [Result_str ''NEW'', Result_nr 1], ws) \<and>
               length ress = length [10, 20, 10, 30 :: Item])"
proof -
  have a: "accepted_cabinetSizes [2, 1]"
    by (simp add: accepted_cabinetSizes_def is_invalid_cabinet_size_def)
  have b: "[2, 1 :: 64 word] \<noteq> []" by simp
  have c: "(7 :: Item) \<notin> set [10, 20, 10, 30]" by simp
  have d: "(7 :: Item) \<noteq> kSentinelItem" by (simp add: kSentinelItem_def)
  from workOn_new_item_twice [OF a b c d] a c d show ?thesis by blast
qed

subsection \<open>No item is lost while the outside cabinet has space\<close>

text \<open>
  Counting the entries equal to an item \<open>y\<close> other than the sentinel over all stores:
  clearing the workbench keeps the count, provided there is a cabinet and the outside
  cabinet has space, and looking for an item moves it or adds it once. So within the
  first 65535 calls every item worked on is in exactly one place.
\<close>

lemma count_list_butlast:
  "xs \<noteq> [] \<Longrightarrow> count_list (butlast xs) y + (if last xs = y then 1 else 0) = count_list xs y"
  by (induction xs) auto

lemma addItem_count:
  assumes "addItem item c = Some (extraItem, c')" and "y \<noteq> kSentinelItem"
  shows "count_list (mStorage c') y + (if extraItem = y then 1 else 0) =
         count_list (mStorage c) y + (if item = y then 1 else 0)"
proof (cases "hasSpace c")
  case True
  with assms show ?thesis by (auto simp: addItem_def)
next
  case False
  with assms(1) have ne: "mStorage c \<noteq> []" and e: "extraItem = last (mStorage c)"
    and c': "mStorage c' = item # butlast (mStorage c)"
    by (auto simp: addItem_def split: if_splits)
  from count_list_butlast [OF ne, of y] e c' show ?thesis by auto
qed

lemma addItem_count_hasSpace:
  assumes "addItem item c = Some (extraItem, c')" and "hasSpace c"
  shows "count_list (mStorage c') y = count_list (mStorage c) y + (if item = y then 1 else 0)"
    and "length (mStorage c') = Suc (length (mStorage c))"
  using assms by (auto simp: addItem_def)

lemma putInCabinet_loop_count:
  "putInCabinet_loop item extraItem cabinets = Some (item', extraItem', cabinets') \<Longrightarrow>
   y \<noteq> kSentinelItem \<Longrightarrow>
   count_list (concat (map mStorage cabinets')) y + (if extraItem' = y then 1 else 0) =
   count_list (concat (map mStorage cabinets)) y +
     (if cabinets = [] then (if extraItem = y then 1 else 0) else (if item = y then 1 else 0))"
proof (induction cabinets arbitrary: item extraItem cabinets')
  case Nil
  then show ?case by simp
next
  case (Cons c rest)
  from Cons.prems(1) show ?case
  proof (cases rule: putInCabinet_loop_Cons)
    case (stop c')
    from addItem_count [OF stop(1) Cons.prems(2)] stop(3,4) Cons.prems(2) show ?thesis
      by auto
  next
    case (go e c' rest')
    from addItem_count [OF go(1) Cons.prems(2)] Cons.IH [OF go(3) Cons.prems(2)] go(4)
    show ?thesis by (cases "rest = []") auto
  qed
qed

lemma putInCabinet_loop_sentinel:
  assumes "putInCabinet_loop item kSentinelItem cabinets = Some (kSentinelItem, extraItem', cabinets')"
  shows "extraItem' = kSentinelItem"
proof (cases cabinets)
  case Nil
  with assms show ?thesis by simp
next
  case (Cons c rest)
  from assms [unfolded Cons] show ?thesis
  proof (cases rule: putInCabinet_loop_Cons)
    case (stop c')
    then show ?thesis by simp
  next
    case (go e c' rest')
    from putInCabinet_loop_item [OF go(3) go(2)] show ?thesis by simp
  qed
qed

lemma putInCabinet_cases:
  assumes "putInCabinet item ws = Some ws'"
  obtains (outside) item' extraItem' cabinets' popped outside'
    where "putInCabinet_loop item kSentinelItem (mCabinets ws) = Some (item', extraItem', cabinets')"
      and "item' \<noteq> kSentinelItem"
      and "addItem extraItem' (mOutside ws) = Some (popped, outside')"
      and "ws' = ws\<lparr>mOutside := outside', mCabinets := cabinets'\<rparr>"
  | (kept) extraItem' cabinets'
    where "putInCabinet_loop item kSentinelItem (mCabinets ws) = Some (kSentinelItem, extraItem', cabinets')"
      and "ws' = ws\<lparr>mCabinets := cabinets'\<rparr>"
proof -
  from assms obtain r where loop: "putInCabinet_loop item kSentinelItem (mCabinets ws) = Some r"
    by (cases "putInCabinet_loop item kSentinelItem (mCabinets ws)") (auto simp: putInCabinet_def)
  obtain item' extraItem' cabinets' where r: "r = (item', extraItem', cabinets')"
    by (cases r) auto
  show thesis
  proof (cases "item' = kSentinelItem")
    case True
    with assms loop r show thesis
      by (intro kept [of extraItem' cabinets']) (simp_all add: putInCabinet_def)
  next
    case False
    with assms loop r obtain q where add: "addItem extraItem' (mOutside ws) = Some q"
      by (cases "addItem extraItem' (mOutside ws)") (auto simp: putInCabinet_def)
    obtain popped outside' where q: "q = (popped, outside')" by (cases q) auto
    with assms loop r False add show thesis
      by (intro outside [of item' extraItem' cabinets' popped outside']) (simp_all add: putInCabinet_def)
  qed
qed

lemma workOn_clear_count:
  assumes "workOn_clear ws = Some ws'" and "shaped ws" and "mCabinets ws \<noteq> []"
    and "hasSpace (mOutside ws)" and "y \<noteq> kSentinelItem"
  shows "count_list (stored ws') y = count_list (stored ws) y"
    and "length (mStorage (mOutside ws')) \<le> Suc (length (mStorage (mOutside ws)))"
proof -
  have "count_list (stored ws') y = count_list (stored ws) y \<and>
        length (mStorage (mOutside ws')) \<le> Suc (length (mStorage (mOutside ws)))"
  proof (cases "mStorage (mWorkbench ws)")
    case Nil
    with assms(1) workOn_clear_empty [OF Nil] show ?thesis by simp
  next
    case (Cons w rest)
    with assms(2) have one: "mStorage (mWorkbench ws) = [w]" by (simp add: shaped_def)
    let ?ws = "ws\<lparr>mWorkbench := (mWorkbench ws)\<lparr>mStorage := []\<rparr>\<rparr>"
    from assms(1) workOn_clear_one [OF one] have "putInCabinet w ?ws = Some ws'" by simp
    then show ?thesis
    proof (cases rule: putInCabinet_cases)
      case (outside item' extraItem' cabinets' popped outside')
      from putInCabinet_loop_count [OF outside(1) assms(5)] assms(3)
      have "count_list (concat (map mStorage cabinets')) y + (if extraItem' = y then 1 else 0) =
            count_list (concat (map mStorage (mCabinets ws))) y + (if w = y then 1 else 0)"
        by simp
      moreover from outside(3) assms(4)
      have "count_list (mStorage outside') y =
            count_list (mStorage (mOutside ws)) y + (if extraItem' = y then 1 else 0)"
        and "length (mStorage outside') = Suc (length (mStorage (mOutside ws)))"
        using addItem_count_hasSpace [of extraItem' "mOutside ws" popped outside'] by simp_all
      ultimately show ?thesis
        using outside(4) one by (simp add: stored_def)
    next
      case (kept extraItem' cabinets')
      from putInCabinet_loop_sentinel [OF kept(1)] have e: "extraItem' = kSentinelItem" .
      have w: "w = kSentinelItem"
      proof (rule ccontr)
        assume "w \<noteq> kSentinelItem"
        from putInCabinet_loop_item [OF kept(1) this] show False by simp
      qed
      from putInCabinet_loop_count [OF kept(1) assms(5)] assms(3,5) e w
      have "count_list (concat (map mStorage cabinets')) y =
            count_list (concat (map mStorage (mCabinets ws))) y"
        by simp
      then show ?thesis
        using kept(2) one w assms(5) by (simp add: stored_def)
    qed
  qed
  then show "count_list (stored ws') y = count_list (stored ws) y"
    and "length (mStorage (mOutside ws')) \<le> Suc (length (mStorage (mOutside ws)))"
    by simp_all
qed


lemma count_concat_update:
  "k < length (cabinets :: Cabinet list) \<Longrightarrow>
   count_list (concat (map mStorage (cabinets[k := c']))) y + count_list (mStorage (cabinets ! k)) y =
   count_list (concat (map mStorage cabinets)) y + count_list (mStorage c') y"
proof (induction cabinets arbitrary: k)
  case Nil
  then show ?case by simp
next
  case (Cons c rest)
  show ?case
  proof (cases k)
    case 0
    then show ?thesis by simp
  next
    case (Suc j)
    with Cons.prems have "j < length rest" by simp
    from Cons.IH [OF this] Suc show ?thesis by simp
  qed
qed

lemma count_in_cabinet:
  assumes "k < length (cabinets :: Cabinet list)" and "item \<in> set (mStorage (cabinets ! k))"
  shows "item \<in> set (concat (map mStorage cabinets))"
  using assms by (auto intro!: bexI [of _ "cabinets ! k"])

lemma workOn_find_count:
  assumes "workOn_find item ws = Some (res, ws')" and "shaped ws"
    and "mStorage (mWorkbench ws) = []"
  shows "count_list (stored ws') y =
         (if y = item \<and> item \<notin> set (stored ws) then 1 else count_list (stored ws) y)"
    and "length (mStorage (mOutside ws')) \<le> length (mStorage (mOutside ws))"
proof -
  from assms(2) have one: "mSize (mWorkbench ws) = 1" and len: "length (mCabinets ws) \<le> 2147483647"
    by (simp_all add: shaped_def)
  note empty = assms(3)
  consider (outside) "item \<in> set (mStorage (mOutside ws))"
    | (cabinet) "item \<notin> set (mStorage (mOutside ws))"
        "\<exists>i. i < length (mCabinets ws) \<and> item \<in> set (mStorage (mCabinets ws ! i))"
    | (new) "item \<notin> set (mStorage (mOutside ws))"
        "\<forall>i. 0 \<le> i \<and> i < length (mCabinets ws) \<longrightarrow> item \<notin> set (mStorage (mCabinets ws ! i))"
    by blast
  then have "count_list (stored ws') y =
         (if y = item \<and> item \<notin> set (stored ws) then 1 else count_list (stored ws) y) \<and>
         length (mStorage (mOutside ws')) \<le> length (mStorage (mOutside ws))"
  proof cases
    case outside
    from workOn_find_outside [OF outside empty one] assms(1)
    have ws': "ws' = ws\<lparr>mOutside := (mOutside ws)\<lparr>mStorage := remove1 item (mStorage (mOutside ws))\<rparr>,
                  mWorkbench := (mWorkbench ws)\<lparr>mStorage := [item]\<rparr>\<rparr>"
      by simp
    from outside have pos: "0 < count_list (mStorage (mOutside ws)) item"
      using count_list_0_iff [of "mStorage (mOutside ws)" item] by auto
    from outside have "item \<in> set (stored ws)" by (simp add: stored_def)
    with pos show ?thesis
      unfolding ws' by (auto simp: stored_def empty length_remove1)
  next
    case cabinet
    from first_cabinet_with [OF cabinet(2)] obtain k
      where k: "k < length (mCabinets ws)" and mem: "item \<in> set (mStorage (mCabinets ws ! k))"
        and first: "\<forall>i. 0 \<le> i \<and> i < k \<longrightarrow> item \<notin> set (mStorage (mCabinets ws ! i))"
      by auto
    let ?c = "(mCabinets ws ! k)\<lparr>mStorage := remove1 item (mStorage (mCabinets ws ! k))\<rparr>"
    have "0 \<le> k" by simp
    from workOn_cabinets_found [OF len empty one this k mem first]
      workOn_find_cabinets [OF cabinet(1)] assms(1)
    have ws': "ws' = ws\<lparr>mWorkbench := (mWorkbench ws)\<lparr>mStorage := [item]\<rparr>,
                         mCabinets := (mCabinets ws)[k := ?c]\<rparr>"
      by simp
    from mem have pos: "0 < count_list (mStorage (mCabinets ws ! k)) item"
      using count_list_0_iff [of "mStorage (mCabinets ws ! k)" item] by auto
    from count_in_cabinet [OF k mem] have "item \<in> set (stored ws)" by (simp add: stored_def)
    with count_concat_update [OF k, of ?c y] pos show ?thesis
      unfolding ws' by (auto simp: stored_def empty)
  next
    case new
    from workOn_cabinets_NEW [OF len empty one new(2)] workOn_find_cabinets [OF new(1)] assms(1)
    have ws': "ws' = ws\<lparr>mWorkbench := (mWorkbench ws)\<lparr>mStorage := [item]\<rparr>\<rparr>"
      by simp
    have "item \<notin> set (concat (map mStorage (mCabinets ws)))"
    proof
      assume "item \<in> set (concat (map mStorage (mCabinets ws)))"
      then obtain c where c: "c \<in> set (mCabinets ws)" and mem: "item \<in> set (mStorage c)"
        by auto
      from c obtain i where "i < length (mCabinets ws)" and "mCabinets ws ! i = c"
        by (auto simp: in_set_conv_nth)
      with mem new(2) show False by auto
    qed
    with new(1) have "item \<notin> set (stored ws)" by (simp add: stored_def empty)
    then show ?thesis
      unfolding ws' by (auto simp: stored_def empty)
  qed
  then show "count_list (stored ws') y =
         (if y = item \<and> item \<notin> set (stored ws) then 1 else count_list (stored ws) y)"
    and "length (mStorage (mOutside ws')) \<le> length (mStorage (mOutside ws))"
    by simp_all
qed

lemma workOn_count:
  assumes "workOn item ws = Some (res, ws')" and "shaped ws" and "mCabinets ws \<noteq> []"
    and "hasSpace (mOutside ws)" and "y \<noteq> kSentinelItem"
  shows "count_list (stored ws') y =
         (if y = item \<and> count_list (stored ws) y = 0 then 1 else count_list (stored ws) y)"
    and "length (mStorage (mOutside ws')) \<le> Suc (length (mStorage (mOutside ws)))"
proof -
  from workOn_clear_shaped [OF assms(2)] obtain ws1
    where clear: "workOn_clear ws = Some ws1" and shaped: "shaped ws1"
      and empty: "mStorage (mWorkbench ws1) = []"
    by blast
  from assms(1) clear have find: "workOn_find item ws1 = Some (res, ws')"
    by (simp add: workOn_def)
  note c1 = workOn_clear_count [OF clear assms(2-5)]
  note c2 = workOn_find_count [OF find shaped empty]
  from c1(2) c2(2) show "length (mStorage (mOutside ws')) \<le> Suc (length (mStorage (mOutside ws)))"
    by simp
  show "count_list (stored ws') y =
         (if y = item \<and> count_list (stored ws) y = 0 then 1 else count_list (stored ws) y)"
  proof (cases "y = item")
    case True
    with c1(1) have "item \<notin> set (stored ws1) \<longleftrightarrow> count_list (stored ws) y = 0"
      using count_list_0_iff [of "stored ws1" item] by simp
    with c1(1) c2(1) [of y] True show ?thesis by simp
  next
    case False
    with c1(1) c2(1) [of y] show ?thesis by simp
  qed
qed

lemma workOn_all_count:
  "workOn_all items ws = Some (ress, ws') \<Longrightarrow> shaped ws \<Longrightarrow> mCabinets ws \<noteq> [] \<Longrightarrow>
   length (mStorage (mOutside ws)) + length items \<le> unat (mSize (mOutside ws)) \<Longrightarrow>
   y \<noteq> kSentinelItem \<Longrightarrow>
   count_list (stored ws') y =
     (if y \<in> set items \<and> count_list (stored ws) y = 0 then 1 else count_list (stored ws) y)"
proof (induction items arbitrary: ws ress)
  case Nil
  then show ?case by simp
next
  case (Cons item items)
  from workOn_shaped [OF Cons.prems(2), of item] obtain res ws1
    where step: "workOn item ws = Some (res, ws1)" and shaped: "shaped ws1"
      and sizes: "map mSize (mCabinets ws1) = map mSize (mCabinets ws)"
      and out: "mSize (mOutside ws1) = mSize (mOutside ws)"
    by blast
  from Cons.prems(1) step obtain ress1 where rest: "workOn_all items ws1 = Some (ress1, ws')"
    by (cases "workOn_all items ws1") auto
  from Cons.prems(4) have space: "hasSpace (mOutside ws)" by (simp add: hasSpace_def)
  note c = workOn_count [OF step Cons.prems(2,3) space Cons.prems(5)]
  from sizes Cons.prems(3) have cabs: "mCabinets ws1 \<noteq> []" by auto
  from c(2) out Cons.prems(4)
  have room: "length (mStorage (mOutside ws1)) + length items \<le> unat (mSize (mOutside ws1))"
    by simp
  from Cons.IH [OF rest shaped cabs room Cons.prems(5)] c(1) show ?case
    by auto
qed

lemma items_kept_while_outside_has_space:
  assumes "accepted_cabinetSizes cabinetSizes" and "cabinetSizes \<noteq> []"
    and "length items \<le> 65535" and "y \<noteq> kSentinelItem"
  shows "\<exists>ress ws. workOn_all items (WorkShop cabinetSizes) = Some (ress, ws) \<and>
           count_list (stored ws) y = (if y \<in> set items then 1 else 0)"
proof -
  note shaped = WorkShop_shaped [OF assms(1)]
  from workOn_all_shaped [OF shaped, of items] obtain ress ws
    where run: "workOn_all items (WorkShop cabinetSizes) = Some (ress, ws)"
    by blast
  have cabs: "mCabinets (WorkShop cabinetSizes) \<noteq> []"
    using assms(2) by (simp add: WorkShop_def)
  have room: "length (mStorage (mOutside (WorkShop cabinetSizes))) + length items
              \<le> unat (mSize (mOutside (WorkShop cabinetSizes)))"
    using assms(3) by (simp add: WorkShop_def Cabinet_def kSentinelItem_def)
  from workOn_all_count [OF run shaped cabs room assms(4)]
  have "count_list (stored ws) y = (if y \<in> set items then 1 else 0)"
    by (simp add: WorkShop_stored)
  with run show ?thesis by blast
qed

subsection \<open>The outside cabinet fills up\<close>

lemma workOn_one_cabinet:
  assumes "x \<notin> set outside" and "x \<noteq> a" and "x \<noteq> b" and "a \<noteq> kSentinelItem"
    and "outside \<noteq> []"
  shows "workOn x (one_cabinet outside a b) =
         Some (Result_str ''NEW'',
               one_cabinet (a # (if length outside < 65535 then outside else butlast outside)) b x)"
proof -
  let ?out' = "a # (if length outside < 65535 then outside else butlast outside)"
  have clear: "workOn_clear (one_cabinet outside a b) =
      Some \<lparr>mOutside = \<lparr>mSize = 65535, mStorage = ?out'\<rparr>,
            mWorkbench = \<lparr>mSize = 1, mStorage = []\<rparr>,
            mCabinets = [\<lparr>mSize = 1, mStorage = [b]\<rparr>]\<rparr>"
    using assms(4,5)
    by (simp add: one_cabinet_def workOn_clear_def empty_cab_def pop_back_def putInCabinet_def
        addItem_def hasSpace_def)
  have notin: "x \<notin> set ?out'"
    using assms(1,2) by (auto dest: in_set_butlastD)
  let ?ws = "\<lparr>mOutside = \<lparr>mSize = 65535, mStorage = ?out'\<rparr>,
            mWorkbench = \<lparr>mSize = 1, mStorage = []\<rparr>,
            mCabinets = [\<lparr>mSize = 1, mStorage = [b]\<rparr>]\<rparr>"
  have "workOn_find x ?ws = workOn_cabinets x ?ws 0"
    using notin by (intro workOn_find_cabinets) simp
  also have "\<dots> = Some (Result_str ''NEW'', ?ws\<lparr>mWorkbench := (mWorkbench ?ws)\<lparr>mStorage := [x]\<rparr>\<rparr>)"
    using assms(3) by (intro workOn_cabinets_NEW) simp_all
  finally show ?thesis
    using clear by (simp add: workOn_def one_cabinet_def)
qed


lemma item_of_nat_eq:
  assumes "m < 2 ^ 64" and "n < 2 ^ 64"
  shows "(word_of_nat m :: Item) = word_of_nat n \<longleftrightarrow> m = n"
  using assms by (simp add: word_of_nat_eq_iff take_bit_nat_eq_self)

lemma kSentinelItem_of_nat: "kSentinelItem = word_of_nat 9223372036854775807"
  by (simp add: kSentinelItem_def)

lemma item_of_nat_neq_sentinel:
  assumes "n < 9223372036854775807"
  shows "(word_of_nat n :: Item) \<noteq> kSentinelItem"
proof -
  have "n < 2 ^ 64" using assms by simp
  moreover have "(9223372036854775807 :: nat) < 2 ^ 64" by simp
  ultimately have "(word_of_nat n :: Item) = word_of_nat 9223372036854775807 \<longleftrightarrow> n = 9223372036854775807"
    by (rule item_of_nat_eq)
  with assms show ?thesis by (simp add: kSentinelItem_of_nat)
qed

lemma item_of_nat_notin:
  assumes "n < 2 ^ 64" and "\<forall>k \<in> set ks. k < 2 ^ 64 \<and> k \<noteq> n"
  shows "(word_of_nat n :: Item) \<notin> set (map word_of_nat ks)"
proof
  assume "(word_of_nat n :: Item) \<in> set (map word_of_nat ks)"
  then obtain k where k: "k \<in> set ks" and eq: "(word_of_nat n :: Item) = word_of_nat k"
    by auto
  from k assms have "k \<noteq> n" and "k < 2 ^ 64" by auto
  with eq assms(1) item_of_nat_eq [of n k] show False by simp
qed

lemma run_one_cabinet_base:
  "workOn_all [1, 2] (WorkShop [1]) =
   Some ([Result_str ''NEW'', Result_str ''NEW''], one_cabinet [kSentinelItem] 1 2)"
  by (simp add: one_cabinet_def workshop_defs cabinet_defs)

lemma workOn_all_snoc:
  assumes "workOn_all items ws = Some (ress, ws')" and "workOn item ws' = Some (res, ws'')"
  shows "workOn_all (items @ [item]) ws = Some (ress @ [res], ws'')"
  using assms by (simp add: workOn_all_append)

lemma run_one_cabinet:
  assumes "2 \<le> n"
  shows "n \<le> 65536 \<Longrightarrow>
         workOn_all (map word_of_nat [1..<Suc n]) (WorkShop [1]) =
         Some (replicate n (Result_str ''NEW''),
               one_cabinet (map word_of_nat (rev [1..<n - 1]) @ [kSentinelItem])
                 (word_of_nat (n - 1)) (word_of_nat n))"
  using assms
proof (induction n rule: dec_induct)
  case base
  have "[1..<Suc 2] = [1, 2]"
    by (simp add: upt_conv_Cons)
  then have "map word_of_nat [1..<Suc 2] = [1, 2 :: Item]"
    by simp
  moreover have "replicate 2 (Result_str ''NEW'') = [Result_str ''NEW'', Result_str ''NEW'']"
    by (simp add: numeral_2_eq_2)
  ultimately show ?case
    using run_one_cabinet_base by simp
next
  case (step n)
  let ?out = "map word_of_nat (rev [1..<n - 1]) @ [kSentinelItem]"
  let ?a = "word_of_nat (n - 1) :: Item"
  let ?b = "word_of_nat n :: Item"
  let ?x = "word_of_nat (Suc n) :: Item"
  from step.prems have n: "n \<le> 65535" by simp
  with step.IH have run: "workOn_all (map word_of_nat [1..<Suc n]) (WorkShop [1]) =
         Some (replicate n (Result_str ''NEW''), one_cabinet ?out ?a ?b)"
    by simp
  have big: "Suc n < 2 ^ 64" "n < 2 ^ 64" "n - 1 < 2 ^ 64" using n by simp_all
  have "?x \<notin> set (map word_of_nat (rev [1..<n - 1]))"
    using big(1) by (rule item_of_nat_notin) (use n in auto)
  moreover have "?x \<noteq> kSentinelItem"
    using n by (intro item_of_nat_neq_sentinel) simp
  ultimately have x_out: "?x \<notin> set ?out" by simp
  have x_a: "?x \<noteq> ?a" using item_of_nat_eq [OF big(1) big(3)] by simp
  have x_b: "?x \<noteq> ?b" using item_of_nat_eq [OF big(1) big(2)] by simp
  have a_s: "?a \<noteq> kSentinelItem" using n by (intro item_of_nat_neq_sentinel) simp
  have ne: "?out \<noteq> []" by simp
  have len: "length ?out < 65535" using n step.hyps by simp
  have "[1..<n] = [1..<n - 1] @ [n - 1]"
    using step.hyps upt_Suc_append [of 1 "n - 1"] by simp
  then have out': "?a # ?out = map word_of_nat (rev [1..<Suc n - 1]) @ [kSentinelItem]"
    by simp
  from workOn_one_cabinet [OF x_out x_a x_b a_s ne] len
  have "workOn ?x (one_cabinet ?out ?a ?b) = Some (Result_str ''NEW'', one_cabinet (?a # ?out) ?b ?x)"
    by simp
  from workOn_all_snoc [OF run this]
  have "workOn_all (map word_of_nat [1..<Suc n] @ [?x]) (WorkShop [1]) =
        Some (replicate n (Result_str ''NEW'') @ [Result_str ''NEW''], one_cabinet (?a # ?out) ?b ?x)" .
  moreover have "map word_of_nat [1..<Suc n] @ [?x] = map word_of_nat [1..<Suc (Suc n)]"
    by (simp del: of_nat_Suc)
  moreover have "replicate n (Result_str ''NEW'') @ [Result_str ''NEW''] = replicate (Suc n) (Result_str ''NEW'')"
    by (simp add: replicate_append_same)
  ultimately show ?case
    unfolding out' by (simp del: of_nat_Suc upt_Suc)
qed


declare upt_rec_numeral [simp del]

lemma replicate_snoc: "Suc n = m \<Longrightarrow> replicate n x @ [x] = replicate m x"
  by (auto simp: replicate_append_same)

lemma run_one_cabinet_65537:
  "workOn_all (map word_of_nat [1..<65538]) (WorkShop [1]) =
   Some (replicate 65537 (Result_str ''NEW''),
         one_cabinet (map word_of_nat (rev [1..<65536])) 65536 65537)"
proof -
  let ?out = "map word_of_nat (rev [1..<65535]) @ [kSentinelItem]"
  have "workOn_all (map word_of_nat [1..<Suc 65536]) (WorkShop [1]) =
         Some (replicate 65536 (Result_str ''NEW''),
               one_cabinet (map word_of_nat (rev [1..<65536 - 1]) @ [kSentinelItem])
                 (word_of_nat (65536 - 1)) (word_of_nat 65536))"
    by (rule run_one_cabinet) simp_all
  then have run: "workOn_all (map word_of_nat [1..<65537]) (WorkShop [1]) =
         Some (replicate 65536 (Result_str ''NEW''), one_cabinet ?out 65535 65536)"
    by simp
  have "(word_of_nat 65537 :: Item) \<notin> set (map word_of_nat (rev [1..<65535]))"
    by (rule item_of_nat_notin) auto
  moreover have "(word_of_nat 65537 :: Item) \<noteq> kSentinelItem"
    by (rule item_of_nat_neq_sentinel) simp
  ultimately have x_out: "(65537 :: Item) \<notin> set ?out" by simp
  have x_a: "(65537 :: Item) \<noteq> 65535" and x_b: "(65537 :: Item) \<noteq> 65536" by simp_all
  have a_s: "(65535 :: Item) \<noteq> kSentinelItem" by (simp add: kSentinelItem_def)
  have ne: "?out \<noteq> []" by simp
  have len: "length ?out = 65535" by simp
  have "[1..<65536] = [1..<65535] @ [65535]"
    using upt_Suc_append [of 1 65535] by simp
  then have out': "65535 # butlast ?out = map word_of_nat (rev [1..<65536])"
    by (simp add: butlast_append)
  from workOn_one_cabinet [OF x_out x_a x_b a_s ne] len
  have "workOn 65537 (one_cabinet ?out 65535 65536) =
        Some (Result_str ''NEW'', one_cabinet (65535 # butlast ?out) 65536 65537)"
    by simp
  from workOn_all_snoc [OF run this]
  have "workOn_all (map word_of_nat [1..<65537] @ [65537]) (WorkShop [1]) =
        Some (replicate 65536 (Result_str ''NEW'') @ [Result_str ''NEW''],
              one_cabinet (65535 # butlast ?out) 65536 65537)" .
  moreover have "map word_of_nat [1..<65537] @ [65537 :: Item] = map word_of_nat [1..<65538]"
    using upt_Suc_append [of 1 65537] by simp
  moreover have "replicate 65536 (Result_str ''NEW'') @ [Result_str ''NEW'']
                 = replicate 65537 (Result_str ''NEW'')"
    by (rule replicate_snoc) simp
  ultimately show ?thesis
    unfolding out' by simp
qed

lemma run_one_cabinet_65538:
  "workOn_all (map word_of_nat [1..<65539]) (WorkShop [1]) =
   Some (replicate 65538 (Result_str ''NEW''),
         one_cabinet (map word_of_nat (rev [Suc 1..<65537])) 65537 65538)"
proof -
  let ?out = "map word_of_nat (rev [1..<65536]) :: Item list"
  note run = run_one_cabinet_65537
  have x_out: "(word_of_nat 65538 :: Item) \<notin> set ?out"
    by (rule item_of_nat_notin) auto
  then have x_out: "(65538 :: Item) \<notin> set ?out" by simp
  have x_a: "(65538 :: Item) \<noteq> 65536" and x_b: "(65538 :: Item) \<noteq> 65537" by simp_all
  have a_s: "(65536 :: Item) \<noteq> kSentinelItem" by (simp add: kSentinelItem_def)
  have len: "length ?out = 65535" by simp
  then have ne: "?out \<noteq> []" by auto
  have "butlast ?out = map word_of_nat (rev (tl [1..<65536]))"
    by (simp add: map_butlast [symmetric])
  also have "tl [1..<65536] = [Suc 1..<65536]" by simp
  finally have "65536 # butlast ?out = map word_of_nat (rev ([Suc 1..<65536] @ [65536]))"
    by simp
  also have "[Suc 1..<65536] @ [65536] = [Suc 1..<65537]"
    using upt_Suc_append [of "Suc 1" 65536] by simp
  finally have out': "65536 # butlast ?out = map word_of_nat (rev [Suc 1..<65537])" .
  from workOn_one_cabinet [OF x_out x_a x_b a_s ne] len
  have "workOn 65538 (one_cabinet ?out 65536 65537) =
        Some (Result_str ''NEW'', one_cabinet (65536 # butlast ?out) 65537 65538)"
    by simp
  from workOn_all_snoc [OF run this]
  have "workOn_all (map word_of_nat [1..<65538] @ [65538]) (WorkShop [1]) =
        Some (replicate 65537 (Result_str ''NEW'') @ [Result_str ''NEW''],
              one_cabinet (65536 # butlast ?out) 65537 65538)" .
  moreover have "map word_of_nat [1..<65538] @ [65538 :: Item] = map word_of_nat [1..<65539]"
    using upt_Suc_append [of 1 65538] by simp
  moreover have "replicate 65537 (Result_str ''NEW'') @ [Result_str ''NEW'']
                 = replicate 65538 (Result_str ''NEW'')"
    by (rule replicate_snoc) simp
  ultimately show ?thesis
    unfolding out' by simp
qed


text \<open>
  C2. The constructor narrows the size of the outside cabinet to 65535. With one cabinet
  of size 1, after working on the items 1, 2, \<dots>, 65537 the outside cabinet holds 65535
  entries, among them item 1, and the next \<^verbatim>\<open>addItem\<close> on it (the one the call for item
  65538 makes, with the item 65536 pushed out of the cabinet) pops item 1 and returns it.
\<close>

theorem outside_cabinet_evicts:
  "mSize (mOutside (WorkShop cabinetSizes)) = 65535 \<and>
   (\<exists>ress ws. workOn_all (map word_of_nat [1..<65538]) (WorkShop [1]) = Some (ress, ws) \<and>
      length (mStorage (mOutside ws)) = 65535 \<and> 1 \<in> set (mStorage (mOutside ws)) \<and>
      (\<exists>outside'. addItem 65536 (mOutside ws) = Some (1, outside') \<and>
                   1 \<notin> set (mStorage outside')))"
proof -
  let ?out = "map word_of_nat (rev [1..<65536]) :: Item list"
  let ?ws = "one_cabinet ?out 65536 65537"
  have size: "mSize (mOutside (WorkShop cabinetSizes)) = 65535"
    by (simp add: WorkShop_def Cabinet_def kSentinelItem_def)
  have len: "length (mStorage (mOutside ?ws)) = 65535"
    by (simp add: one_cabinet_def)
  have "(word_of_nat 1 :: Item) \<in> word_of_nat ` set (rev [1..<65536])"
    by (rule imageI) simp
  then have mem: "1 \<in> set (mStorage (mOutside ?ws))"
    by (simp add: one_cabinet_def)
  have ne: "?out \<noteq> []" using len by (auto simp: one_cabinet_def)
  have "last ?out = word_of_nat (hd [1..<65536])"
    by (simp add: last_map last_rev)
  then have last: "last ?out = 1" by simp
  have "butlast ?out = map word_of_nat (rev (tl [1..<65536]))"
    by (simp add: map_butlast [symmetric])
  then have butlast: "butlast ?out = map word_of_nat (rev [Suc 1..<65536])"
    by simp
  have add: "addItem 65536 (mOutside ?ws) =
             Some (1, \<lparr>mSize = 65535, mStorage = 65536 # map word_of_nat (rev [Suc 1..<65536])\<rparr>)"
    using ne last butlast by (simp add: one_cabinet_def addItem_def hasSpace_def)
  have "(word_of_nat 1 :: Item) \<notin> set (map word_of_nat (rev [Suc 1..<65536]))"
    by (rule item_of_nat_notin) auto
  then have gone: "1 \<notin> set (mStorage \<lparr>mSize = 65535, mStorage = 65536 # map word_of_nat (rev [Suc 1..<65536])\<rparr>)"
    by simp
  from size run_one_cabinet_65537 len mem add gone show ?thesis by blast
qed

text \<open>
  C1. With one cabinet of size 1, the items 1, 2, \<dots>, 65538 are distinct and none is
  the sentinel; after working on them in this order, item 1 is in no store of the
  workshop: neither on the workbench, nor in the cabinet, nor outside.
\<close>

theorem item_lost_after_65538_calls:
  "distinct (map word_of_nat [1..<65539] :: Item list) \<and>
   kSentinelItem \<notin> set (map word_of_nat [1..<65539]) \<and>
   (1 :: Item) \<in> set (map word_of_nat [1..<65539]) \<and>
   (\<exists>ress ws. workOn_all (map word_of_nat [1..<65539]) (WorkShop [1]) = Some (ress, ws) \<and>
      1 \<notin> set (stored ws))"
proof -
  have "inj_on (word_of_nat :: nat \<Rightarrow> Item) (set [1..<65539])"
  proof (rule inj_onI)
    fix m n :: nat
    assume "m \<in> set [1..<65539]" and "n \<in> set [1..<65539]"
    then have "m < 2 ^ 64" and "n < 2 ^ 64" by simp_all
    moreover assume "(word_of_nat m :: Item) = word_of_nat n"
    ultimately show "m = n" by (simp add: item_of_nat_eq)
  qed
  then have a: "distinct (map word_of_nat [1..<65539] :: Item list)"
    by (simp add: distinct_map)
  have "(word_of_nat 9223372036854775807 :: Item) \<notin> set (map word_of_nat [1..<65539])"
    by (rule item_of_nat_notin) auto
  then have b: "kSentinelItem \<notin> set (map word_of_nat [1..<65539])"
    unfolding kSentinelItem_of_nat .
  have "(word_of_nat 1 :: Item) \<in> word_of_nat ` set [1..<65539]"
    by (rule imageI) simp
  then have c: "(1 :: Item) \<in> set (map word_of_nat [1..<65539])"
    by simp
  have "(word_of_nat 1 :: Item) \<notin> set (map word_of_nat (rev [Suc 1..<65537]))"
    by (rule item_of_nat_notin) auto
  then have d: "1 \<notin> set (stored (one_cabinet (map word_of_nat (rev [Suc 1..<65537])) 65537 65538))"
    by (simp add: stored_def one_cabinet_def)
  from a b c run_one_cabinet_65538 d show ?thesis by blast
qed

subsection \<open>A full outside cabinet gains no sentinel\<close>







subsection \<open>Concrete runs\<close>

text \<open>
  C7. With one cabinet of size 1, working on the items 10, 20, 10, 30 gives the results
  \<^verbatim>\<open>NEW\<close>, \<^verbatim>\<open>NEW\<close>, \<^verbatim>\<open>OUTSIDE\<close>, \<^verbatim>\<open>NEW\<close>, in this order.
\<close>

theorem run_10_20_10_30:
  "map_option fst (workOn_all [10, 20, 10, 30] (WorkShop [1])) =
   Some [Result_str ''NEW'', Result_str ''NEW'', Result_str ''OUTSIDE'', Result_str ''NEW'']"
  by (simp add: workshop_defs cabinet_defs)

text \<open>
  C10. With one cabinet of size 1, working on 1, 2 and then on the value \<open>2^63 - 1\<close>, which
  was never worked on before, gives \<^verbatim>\<open>NEW\<close>, \<^verbatim>\<open>NEW\<close>, \<^verbatim>\<open>OUTSIDE\<close>: after the first two
  calls that value is stored outside, and the third call finds it there.
\<close>

theorem sentinel_found_outside:
  "(9223372036854775807 :: Item) = 2 ^ 63 - 1 \<and>
   workOn_all [1, 2] (WorkShop [1]) =
     Some ([Result_str ''NEW'', Result_str ''NEW''],
           \<lparr>mOutside = \<lparr>mSize = 65535, mStorage = [9223372036854775807]\<rparr>,
            mWorkbench = \<lparr>mSize = 1, mStorage = [2]\<rparr>,
            mCabinets = [\<lparr>mSize = 1, mStorage = [1]\<rparr>]\<rparr>) \<and>
   map_option fst (workOn_all [1, 2, 9223372036854775807] (WorkShop [1])) =
     Some [Result_str ''NEW'', Result_str ''NEW'', Result_str ''OUTSIDE'']"
  by (simp add: workshop_defs cabinet_defs)

text \<open>
  C3. Without cabinets, working on 5 gives \<^verbatim>\<open>NEW\<close>. Working on 5, 6, 5 gives \<^verbatim>\<open>NEW\<close>
  three times: the second call takes 5 from the workbench and stores the sentinel outside
  in its place, so that 5 is in no store when the third call looks for it.
\<close>

theorem no_cabinets_run_5_6_5:
  "map_option fst (workOn_all [5] (WorkShop [])) = Some [Result_str ''NEW''] \<and>
   workOn_all [5, 6] (WorkShop []) =
     Some ([Result_str ''NEW'', Result_str ''NEW''],
           \<lparr>mOutside = \<lparr>mSize = 65535, mStorage = [kSentinelItem]\<rparr>,
            mWorkbench = \<lparr>mSize = 1, mStorage = [6]\<rparr>, mCabinets = []\<rparr>) \<and>
   map_option fst (workOn_all [5, 6, 5] (WorkShop [])) =
     Some [Result_str ''NEW'', Result_str ''NEW'', Result_str ''NEW'']"
  by (simp add: workshop_defs cabinet_defs)

end
